theory Spec2Isabelle
  imports Main "HOL-Library.Word" "HOL-Library.Multiset"
begin

unbundle bit_operations_syntax

section \<open>The SPIR-V disassembler of renderdoc: data model\<close>

text \<open>
  The development follows \<^verbatim>\<open>renderdoc/driver/shaders/spirv/spirv_disassemble.cpp\<close>.
  Every \<^verbatim>\<open>SPVInstruction\<close> is allocated with \<^verbatim>\<open>new\<close> and owned by
  \<^verbatim>\<open>SPVModule::operations\<close>; all other references are raw pointers. A pointer is
  modelled as an address (a natural number) and the arena as a store from addresses to
  instruction values, so that pointer comparisons (\<^verbatim>\<open>instr == from\<close>,
  \<^verbatim>\<open>erase_item(funcops, arg)\<close>) and in-place mutation keep their aliasing.
\<close>

type_synonym ptr = nat

text \<open>The opcodes that the modelled passes name; every other value of \<^verbatim>\<open>spv::Op\<close> is
  \<open>OpOther\<close> with its number. \<open>OpUnknown\<close> is the file's own \<^verbatim>\<open>(Op)~0U\<close>.\<close>

datatype Op =
    OpNop | OpConstant | OpConstantComposite | OpVariable | OpFunctionParameter
  | OpFunction | OpLabel | OpKill | OpUnreachable | OpReturn | OpReturnValue
  | OpBranch | OpBranchConditional | OpSwitch | OpSelectionMerge | OpLoopMerge
  | OpLoad | OpStore | OpCopyMemory | OpFunctionCall | OpVectorShuffle | OpExtInst
  | OpCompositeConstruct | OpCompositeExtract | OpCompositeInsert | OpAccessChain
  | OpSelect | OpDot | OpFNegate | OpNot | OpLogicalNot | OpIAdd | OpFAdd | OpFMul
  | OpUnknown | OpOther "32 word"

text \<open>\<^verbatim>\<open>struct SPVOperation\<close>: the fields the inliner reads and writes. The constructor
  sets \<open>complexity\<close> and \<open>inlineArgs\<close> to 0.\<close>

record SPVOperation =
  complexity :: int
  inlineArgs :: "32 word"
  arguments :: "ptr list"

text \<open>\<^verbatim>\<open>struct SPVFlowControl\<close>: \<open>targets\<close> are ids, not pointers (flow control can
  reference future ids).\<close>

record SPVFlowControl =
  condition :: "ptr option"
  targets :: "32 word list"

record SPVBlock =
  instructions :: "ptr list"
  mergeFlow :: "ptr option"
  exitFlow :: "ptr option"

record SPVVariable =
  storage :: "32 word"

record SPVFunction =
  blocks :: "ptr list"
  variables :: "ptr list"

text \<open>\<^verbatim>\<open>struct SPVInstruction\<close>: the opcode, the result id (\<open>ident\<close>, the source's
  \<^verbatim>\<open>id\<close>) and the payload pointers, \<open>None\<close> for \<^verbatim>\<open>NULL\<close>.\<close>

record SPVInstruction =
  opcode :: Op
  ident :: "32 word"
  op :: "SPVOperation option"
  flow :: "SPVFlowControl option"
  block :: "SPVBlock option"
  var :: "SPVVariable option"

type_synonym heap = "ptr \<Rightarrow> SPVInstruction"

text \<open>\<^verbatim>\<open>new SPVInstruction()\<close>: opcode \<^verbatim>\<open>OpNop\<close>, id 0, every payload \<^verbatim>\<open>NULL\<close>.\<close>

definition new_SPVInstruction :: SPVInstruction where
  "new_SPVInstruction =
     \<lparr>opcode = OpNop, ident = 0, op = None, flow = None, block = None, var = None\<rparr>"

text \<open>\<^verbatim>\<open>erase_item\<close>: \<^verbatim>\<open>std::find\<close> then \<^verbatim>\<open>erase\<close>, so the first occurrence goes.\<close>

fun erase_item :: "'a list \<Rightarrow> 'a \<Rightarrow> 'a list" where
  "erase_item [] elem = []"
| "erase_item (x # vec) elem = (if x = elem then vec else x # erase_item vec elem)"

text \<open>\<^verbatim>\<open>vec.erase(vec.begin()+l)\<close> for \<open>l\<close> in range.\<close>

definition erase_at :: "'a list \<Rightarrow> nat \<Rightarrow> 'a list" where
  "erase_at vec l = take l vec @ drop (Suc l) vec"

section \<open>The redundant branch/label sweep\<close>

text \<open>
  Lines 1835--1883 of \<^verbatim>\<open>SPVModule::Disassemble\<close>. The loop index \<open>l\<close> and the bound
  \<^verbatim>\<open>funcops.size()-1\<close> are \<^verbatim>\<open>size_t\<close>: the subtraction wraps to \<open>2^64 - 1\<close> when
  the vector is empty. An index of \<^verbatim>\<open>funcops\<close> outside the vector is reported as the
  error \<open>IndexOutOfRange\<close>.

  The parser gives every \<^verbatim>\<open>OpBranch\<close> a \<^verbatim>\<open>flow\<close> with one target and every
  \<^verbatim>\<open>OpLabel\<close> no \<^verbatim>\<open>flow\<close>; \<open>target0\<close> reads \<^verbatim>\<open>flow->targets[0]\<close>.
\<close>

datatype error = IndexOutOfRange nat | NullDeref | OutOfFuel | ShiftOutOfRange nat

definition size_minus_1 :: "nat \<Rightarrow> nat" where
  "size_minus_1 n = (if n = 0 then 2 ^ 64 - 1 else n - 1)"

definition target0 :: "SPVInstruction \<Rightarrow> 32 word option" where
  "target0 i = (case flow i of None \<Rightarrow> None
                | Some f \<Rightarrow> (case targets f of [] \<Rightarrow> None | t # _ \<Rightarrow> Some t))"

text \<open>The inner loop over \<open>b\<close>: is \<open>label\<close> a target of a flow instruction of
  \<^verbatim>\<open>funcops\<close> other than the one at \<open>l\<close>?\<close>

definition is_target :: "SPVInstruction \<Rightarrow> 32 word \<Rightarrow> bool" where
  "is_target i label = (case flow i of None \<Rightarrow> False | Some f \<Rightarrow> label \<in> set (targets f))"

definition refd :: "heap \<Rightarrow> ptr list \<Rightarrow> nat \<Rightarrow> 32 word \<Rightarrow> bool" where
  "refd h funcops l label =
     list_ex (\<lambda>b. b \<noteq> l \<and> is_target (h (funcops ! b)) label) [0 ..< length funcops]"

function sweep :: "heap \<Rightarrow> nat \<Rightarrow> ptr list \<Rightarrow> error + ptr list" where
  "sweep h l funcops =
     (if l < size_minus_1 (length funcops) then
        if length funcops \<le> l then Inl (IndexOutOfRange l)
        else if opcode (h (funcops ! l)) = OpBranch then
          if length funcops \<le> l + 1 then Inl (IndexOutOfRange (l + 1))
          else if opcode (h (funcops ! (l + 1))) = OpLabel
                  \<and> target0 (h (funcops ! l)) = Some (ident (h (funcops ! (l + 1)))) then
            (let label = ident (h (funcops ! (l + 1))) in
             if \<not> refd h funcops l label
             then sweep h l (erase_at (erase_at funcops l) l)
             else sweep h l (erase_at funcops l))
          else sweep h (l + 1) funcops
        else sweep h (l + 1) funcops
      else Inr funcops)"
  by pat_completeness auto
termination
  by (relation "measure (\<lambda>(h, l, funcops). length funcops - l)")
     (auto simp: erase_at_def)

declare sweep.simps [simp del]

section \<open>The purity predicate\<close>

text \<open>Total readers of the operation payload: the parser gives every \<^verbatim>\<open>OpStore\<close> two
  arguments and every \<^verbatim>\<open>OpLoad\<close> one, so the positions read below exist in every parsed
  module; the readers answer \<open>[]\<close>, \<open>0\<close> and \<open>None\<close> where the payload is missing.\<close>

definition arguments_of :: "SPVInstruction \<Rightarrow> ptr list" where
  "arguments_of i = (case op i of None \<Rightarrow> [] | Some x \<Rightarrow> arguments x)"

definition complexity_of :: "SPVInstruction \<Rightarrow> int" where
  "complexity_of i = (case op i of None \<Rightarrow> 0 | Some x \<Rightarrow> complexity x)"

definition inlineArgs_of :: "SPVInstruction \<Rightarrow> 32 word" where
  "inlineArgs_of i = (case op i of None \<Rightarrow> 0 | Some x \<Rightarrow> inlineArgs x)"

definition arg_at :: "SPVInstruction \<Rightarrow> nat \<Rightarrow> ptr option" where
  "arg_at i n = (if n < length (arguments_of i) then Some (arguments_of i ! n) else None)"

definition block_instructions :: "SPVInstruction \<Rightarrow> ptr list" where
  "block_instructions i = (case block i of None \<Rightarrow> [] | Some b \<Rightarrow> instructions b)"

text \<open>
  \<^verbatim>\<open>IsUnmodified\<close>, lines 1260--1318. The two nested loops of the load case walk the
  blocks in order; \<open>scan_instructions\<close> is the inner loop with its three ways out
  (\<^verbatim>\<open>return false\<close>, \<^verbatim>\<open>done\<close> and \<^verbatim>\<open>break\<close>, or the end of the block with
  the current \<^verbatim>\<open>looking\<close>).
\<close>

datatype scan = Modified | Done | Looking bool

fun scan_instructions :: "heap \<Rightarrow> ptr \<Rightarrow> ptr \<Rightarrow> ptr \<Rightarrow> bool \<Rightarrow> ptr list \<Rightarrow> scan" where
  "scan_instructions h frm to v looking [] = Looking looking"
| "scan_instructions h frm to v looking (instr # rest) =
     (if instr = frm then scan_instructions h frm to v True rest
      else if instr = to then Done
      else if looking \<and> opcode (h instr) = OpStore \<and> arg_at (h instr) 0 = Some v then Modified
      else scan_instructions h frm to v looking rest)"

fun scan_blocks :: "heap \<Rightarrow> ptr \<Rightarrow> ptr \<Rightarrow> ptr \<Rightarrow> bool \<Rightarrow> ptr list \<Rightarrow> bool" where
  "scan_blocks h frm to v looking [] = True"
| "scan_blocks h frm to v looking (b # bs) =
     (case scan_instructions h frm to v looking (block_instructions (h b)) of
        Modified \<Rightarrow> False
      | Done \<Rightarrow> True
      | Looking lk \<Rightarrow> scan_blocks h frm to v lk bs)"

text \<open>\<^verbatim>\<open>ret &= IsUnmodified(...)\<close> over all operands: every call is made, none is
  skipped once \<open>ret\<close> is false.\<close>

fun and_all :: "bool option list \<Rightarrow> bool option" where
  "and_all [] = Some True"
| "and_all (r # rs) =
     (case r of None \<Rightarrow> None
      | Some b \<Rightarrow> (case and_all rs of None \<Rightarrow> None | Some c \<Rightarrow> Some (b \<and> c)))"

text \<open>The recursion follows operand pointers, so it ends only when the operand graph has no
  cycle. The first argument bounds the depth; \<open>None\<close> means the bound was reached.\<close>

fun IsUnmodified :: "nat \<Rightarrow> heap \<Rightarrow> SPVFunction \<Rightarrow> ptr \<Rightarrow> ptr \<Rightarrow> bool option" where
  "IsUnmodified 0 h func frm to = None"
| "IsUnmodified (Suc n) h func frm to =
     (case op (h frm) of
        None \<Rightarrow> Some True
      | Some fop \<Rightarrow>
          (case (if opcode (h frm) = OpLoad
                 then (case arguments fop of [] \<Rightarrow> None
                       | a0 # _ \<Rightarrow> (if var (h a0) \<noteq> None then Some a0 else None))
                 else None) of
             Some v \<Rightarrow> Some (scan_blocks h frm to v False (blocks func))
           | None \<Rightarrow>
               and_all (map (\<lambda>a. IsUnmodified n h func a to)
                          (if opcode (h frm) = OpStore then drop 1 (arguments fop)
                           else arguments fop))))"

section \<open>The inliner\<close>

text \<open>
  Lines 1484--1833 of \<^verbatim>\<open>SPVModule::Disassemble\<close>: the loop over the blocks of one
  function that builds the emit list \<^verbatim>\<open>funcops\<close> and annotates the operations. Its state
  is the arena (the operations are mutated in place), \<^verbatim>\<open>funcops\<close>, the local copy
  \<^verbatim>\<open>vars\<close> of the function's variables and, per block, \<^verbatim>\<open>ignore_items\<close>.
\<close>

record inliner =
  st_heap :: heap
  st_funcops :: "ptr list"
  st_vars :: "ptr list"
  st_ignore :: "ptr set"

definition NO_INLINE_COMPLEXITY :: int where
  "NO_INLINE_COMPLEXITY = 3"

definition upd_op :: "(SPVOperation \<Rightarrow> SPVOperation) \<Rightarrow> ptr \<Rightarrow> heap \<Rightarrow> heap" where
  "upd_op f p h = h(p := (h p)\<lparr>op := map_option f (op (h p))\<rparr>)"

text \<open>
  The loop over the arguments of \<open>instr\<close>, lines 1508--1545, from position \<open>a\<close> on. It
  changes \<^verbatim>\<open>funcops\<close>, \<^verbatim>\<open>instr->op->inlineArgs\<close> and the local \<^verbatim>\<open>maxcomplex\<close>
  and reads nothing that it changes, so the three are carried as a triple and
  \<open>inlineArgs\<close> is written back by the caller. \<^verbatim>\<open>1<<a\<close> shifts an \<^verbatim>\<open>int\<close>: it is
  \<open>push_bit a 1\<close> on 32 bits for \<open>a < 32\<close> and undefined from position 32 on, which is the
  error \<open>ShiftOutOfRange\<close>.
\<close>

fun inline_args ::
  "nat \<Rightarrow> heap \<Rightarrow> SPVFunction \<Rightarrow> ptr \<Rightarrow> nat \<Rightarrow> ptr list \<Rightarrow> ptr list \<times> 32 word \<times> int
    \<Rightarrow> error + (ptr list \<times> 32 word \<times> int)" where
  "inline_args fuel h func instr a [] acc = Inr acc"
| "inline_args fuel h func instr a (arg # rest) (fops, bits, maxcomplex) =
     (case op (h arg) of
        Some aop \<Rightarrow>
          (let maxAllowedComplexity =
                 (if opcode (h instr) = OpCompositeConstruct then min 2 NO_INLINE_COMPLEXITY
                  else NO_INLINE_COMPLEXITY)
           in
           if complexity aop \<ge> maxAllowedComplexity \<or>
              (length (arguments aop) > 2 \<and> opcode (h arg) \<noteq> OpAccessChain \<and>
               opcode (h arg) \<noteq> OpSelect \<and> opcode (h arg) \<noteq> OpCompositeConstruct)
           then inline_args fuel h func instr (a + 1) rest (fops, bits, maxcomplex)
           else if opcode (h instr) \<noteq> OpStore \<or> a > 0 then
             (case IsUnmodified fuel h func arg instr of
                None \<Rightarrow> Inl OutOfFuel
              | Some False \<Rightarrow> inline_args fuel h func instr (a + 1) rest (fops, bits, maxcomplex)
              | Some True \<Rightarrow>
                  if a < 32 then
                    inline_args fuel h func instr (a + 1) rest
                      (erase_item fops arg, bits OR push_bit a 1, max (complexity aop) maxcomplex)
                  else Inl (ShiftOutOfRange a))
           else if a < 32 then
             inline_args fuel h func instr (a + 1) rest
               (erase_item fops arg, bits OR push_bit a 1, max (complexity aop) maxcomplex)
           else Inl (ShiftOutOfRange a))
      | None \<Rightarrow>
          if a < 32 then
            inline_args fuel h func instr (a + 1) rest
              (erase_item fops arg, bits OR push_bit a 1, maxcomplex)
          else Inl (ShiftOutOfRange a))"

text \<open>Lines 1506--1553: the argument loop, then \<^verbatim>\<open>complexity = maxcomplex\<close> and the
  increment for everything but store, load and composite extract.\<close>

definition fold_arguments :: "nat \<Rightarrow> SPVFunction \<Rightarrow> ptr \<Rightarrow> inliner \<Rightarrow> error + inliner" where
  "fold_arguments fuel func instr st =
     (let h = st_heap st in
      case inline_args fuel h func instr 0 (arguments_of (h instr))
             (st_funcops st, inlineArgs_of (h instr), 0) of
        Inl e \<Rightarrow> Inl e
      | Inr (fops, bits, maxcomplex) \<Rightarrow>
          (let c = (if opcode (h instr) \<noteq> OpStore \<and> opcode (h instr) \<noteq> OpLoad \<and>
                       opcode (h instr) \<noteq> OpCompositeExtract \<and> bits \<noteq> 0
                    then maxcomplex + 1 else maxcomplex)
           in Inr (st\<lparr>st_heap := upd_op (\<lambda>x. x\<lparr>inlineArgs := bits, complexity := c\<rparr>) instr h,
                      st_funcops := fops\<rparr>)))"

text \<open>Lines 1567--1580: the stores of \<^verbatim>\<open>funcops\<close> to the loaded pointer, counted up to
  two.\<close>

fun count_stores :: "heap \<Rightarrow> ptr option \<Rightarrow> ptr list \<Rightarrow> ptr option \<times> nat \<Rightarrow> ptr option \<times> nat" where
  "count_stores h a0 [] acc = acc"
| "count_stores h a0 (previnstr # rest) (prevstore, storecount) =
     (if opcode (h previnstr) = OpStore \<and> arg_at (h previnstr) 0 = a0 then
        (if storecount + 1 > 1 then (Some previnstr, storecount + 1)
         else count_stores h a0 rest (Some previnstr, storecount + 1))
      else count_stores h a0 rest (prevstore, storecount))"

text \<open>Lines 1584--1602: another load of the same pointer anywhere in the function.\<close>

definition otherload :: "heap \<Rightarrow> SPVFunction \<Rightarrow> ptr \<Rightarrow> bool" where
  "otherload h func instr =
     list_ex (\<lambda>otherblock.
        list_ex (\<lambda>otherinstr. otherinstr \<noteq> instr \<and> opcode (h otherinstr) = OpLoad \<and>
                              arg_at (h otherinstr) 0 = arg_at (h instr) 0)
                (block_instructions (h otherblock)))
       (blocks func)"

text \<open>Lines 1565--1612: the single store before a single load.\<close>

definition merge_single_store :: "nat \<Rightarrow> SPVFunction \<Rightarrow> ptr \<Rightarrow> inliner \<Rightarrow> error + inliner" where
  "merge_single_store fuel func instr st =
     (let h = st_heap st in
      if opcode (h instr) = OpLoad \<and> length (st_funcops st) > 1 then
        (case count_stores h (arg_at (h instr) 0) (st_funcops st) (None, 0) of
           (Some prevstore, Suc 0) \<Rightarrow>
             (case IsUnmodified fuel h func prevstore instr of
                None \<Rightarrow> Inl OutOfFuel
              | Some False \<Rightarrow> Inr st
              | Some True \<Rightarrow>
                  if otherload h func instr then Inr st
                  else Inr (st\<lparr>
                    st_heap := upd_op (\<lambda>x. x\<lparr>
                        complexity := max (complexity x) (complexity_of (h prevstore)),
                        arguments := (arguments x)[0 := prevstore]\<rparr>) instr h,
                    st_vars := (case arg_at (h instr) 0 of None \<Rightarrow> st_vars st
                                | Some a0 \<Rightarrow> erase_item (st_vars st) a0),
                    st_funcops := erase_item (st_funcops st) prevstore\<rparr>))
         | _ \<Rightarrow> Inr st)
      else Inr st)"

text \<open>Lines 1614--1625: a store (or composite insert) of the value emitted just before
  it.\<close>

definition merge_store_temp :: "ptr \<Rightarrow> inliner \<Rightarrow> inliner" where
  "merge_store_temp instr st =
     (let h = st_heap st; fops = st_funcops st in
      if (opcode (h instr) = OpStore \<or> opcode (h instr) = OpCompositeInsert) \<and> length fops > 1
      then
        (case arg_at (h instr) 1 of
           None \<Rightarrow> st
         | Some a1 \<Rightarrow>
             if a1 = fops ! (length fops - 2) then
               st\<lparr>st_funcops := erase_item fops a1,
                  st_heap := upd_op (\<lambda>x. x\<lparr>
                      complexity := (if op (h a1) \<noteq> None
                                     then max (complexity x) (complexity_of (h a1))
                                     else complexity x),
                      inlineArgs := inlineArgs x OR 2\<rparr>) instr h\<rparr>
             else st)
      else st)"

text \<open>
  The parameter elision of a function call, lines 1629--1811. Its three search loops
  (1653--1686 before the call, 1688--1721 after it, 1743--1776 after the load) have one
  shape: \<open>use_arguments\<close> is the loop over the arguments of \<^verbatim>\<open>searchInst\<close> and
  \<open>find_use\<close> the loop over the instructions of the block from index \<open>j\<close>. \<open>is_arg\<close> is
  the comparison with the call's argument (\<^verbatim>\<open>->id == arg->id\<close> in the first two loops,
  \<^verbatim>\<open>== loadAfter\<close> in the third), \<open>wanted\<close> the opcode that may use it, and the result is
  \<^verbatim>\<open>canReplace\<close> with the instruction found and its index.
\<close>

fun use_arguments ::
  "(ptr \<Rightarrow> bool) \<Rightarrow> bool \<Rightarrow> ptr \<times> nat \<Rightarrow> ptr list \<Rightarrow> bool \<times> (ptr \<times> nat) option
    \<Rightarrow> bool \<times> (ptr \<times> nat) option" where
  "use_arguments is_arg is_wanted here [] acc = acc"
| "use_arguments is_arg is_wanted here (x # xs) (canReplace, found) =
     (if is_arg x then
        (if is_wanted then
           (case found of
              Some _ \<Rightarrow> (False, found)
            | None \<Rightarrow> use_arguments is_arg is_wanted here xs (canReplace, Some here))
         else (False, found))
      else use_arguments is_arg is_wanted here xs (canReplace, found))"

definition in_condition :: "(ptr \<Rightarrow> bool) \<Rightarrow> SPVInstruction \<Rightarrow> bool" where
  "in_condition is_arg searchInst =
     (case flow searchInst of None \<Rightarrow> False
      | Some f \<Rightarrow> (case condition f of None \<Rightarrow> False | Some c \<Rightarrow> is_arg c))"

fun find_use ::
  "heap \<Rightarrow> (ptr \<Rightarrow> bool) \<Rightarrow> Op \<Rightarrow> nat \<Rightarrow> ptr list \<Rightarrow> bool \<times> (ptr \<times> nat) option
    \<Rightarrow> bool \<times> (ptr \<times> nat) option" where
  "find_use h is_arg wanted j [] acc = acc"
| "find_use h is_arg wanted j (searchInst # rest) acc =
     (case use_arguments is_arg (opcode (h searchInst) = wanted) (searchInst, j)
             (arguments_of (h searchInst)) acc of
        (canReplace, found) \<Rightarrow>
          (let canReplace' = (canReplace \<and> \<not> in_condition is_arg (h searchInst))
           in if \<not> canReplace' then (canReplace', found)
              else find_use h is_arg wanted (j + 1) rest (canReplace', found)))"

definition set_argument :: "ptr \<Rightarrow> nat \<Rightarrow> ptr \<Rightarrow> heap \<Rightarrow> heap" where
  "set_argument instr a v h = upd_op (\<lambda>x. x\<lparr>arguments := (arguments x)[a := v]\<rparr>) instr h"

text \<open>Lines 1778--1795, the inout case: the store before the call must store a load of
  the variable that \<^verbatim>\<open>storeUse\<close> stores to. \<^verbatim>\<open>storeUse\<close> is dereferenced without a
  check, after \<^verbatim>\<open>&&\<close> has seen an \<^verbatim>\<open>OpLoad\<close>.\<close>

definition inout_matches :: "heap \<Rightarrow> ptr \<Rightarrow> (ptr \<times> nat) option \<Rightarrow> error + bool" where
  "inout_matches h storeBefore storeUse =
     (case arg_at (h storeBefore) 1 of
        None \<Rightarrow> Inl NullDeref
      | Some src \<Rightarrow>
          if opcode (h src) = OpLoad then
            (case storeUse of
               None \<Rightarrow> Inl NullDeref
             | Some (su, _) \<Rightarrow>
                 Inr (map_option (\<lambda>p. ident (h p)) (arg_at (h src) 0)
                      = map_option (\<lambda>p. ident (h p)) (arg_at (h su) 0)))
          else Inr False)"

text \<open>Lines 1736--1808: the argument is used by one load after the call.\<close>

definition elide_out_parameter ::
  "ptr list \<Rightarrow> ptr \<Rightarrow> nat \<Rightarrow> ptr \<Rightarrow> (ptr \<times> nat) option \<Rightarrow> ptr \<times> nat \<Rightarrow> inliner
    \<Rightarrow> error + inliner" where
  "elide_out_parameter binstrs instr a arg storeBefore loadAfter st =
     (let h = st_heap st in
      case find_use h (\<lambda>x. x = fst loadAfter) OpStore (snd loadAfter + 1)
             (drop (snd loadAfter + 1) binstrs) (True, None) of
        (canReplace, storeUse) \<Rightarrow>
          (case (if canReplace
                 then (case storeBefore of
                         None \<Rightarrow> Inr (True, st_funcops st)
                       | Some (sb, _) \<Rightarrow>
                           (case inout_matches h sb storeUse of
                              Inl e \<Rightarrow> Inl e
                            | Inr True \<Rightarrow> Inr (True, erase_item (st_funcops st) sb)
                            | Inr False \<Rightarrow> Inr (False, st_funcops st)))
                 else Inr (False, st_funcops st)) of
             Inl e \<Rightarrow> Inl e
           | Inr (False, fops) \<Rightarrow> Inr (st\<lparr>st_funcops := fops\<rparr>)
           | Inr (True, fops) \<Rightarrow>
               (case storeUse of
                  None \<Rightarrow> Inl NullDeref
                | Some (su, _) \<Rightarrow>
                    (case arg_at (h su) 0 of
                       None \<Rightarrow> Inl NullDeref
                     | Some dst \<Rightarrow>
                         Inr (st\<lparr>st_funcops := fops,
                                 st_ignore := insert su (st_ignore st),
                                 st_vars := erase_item (st_vars st) arg,
                                 st_heap := set_argument instr a dst h\<rparr>)))))"

text \<open>Lines 1633--1809: one argument \<open>a\<close> of the call \<open>instr\<close>, the \<open>i\<close>-th instruction of
  its block.\<close>

definition elide_parameter :: "ptr list \<Rightarrow> nat \<Rightarrow> ptr \<Rightarrow> nat \<Rightarrow> inliner \<Rightarrow> error + inliner" where
  "elide_parameter binstrs i instr a st =
     (let h = st_heap st in
      case arg_at (h instr) a of
        None \<Rightarrow> Inl NullDeref
      | Some arg \<Rightarrow>
          (let is_arg = (\<lambda>x. ident (h x) = ident (h arg)) in
           case find_use h is_arg OpStore 0 (take i binstrs) (True, None) of
             (canReplace0, storeBefore) \<Rightarrow>
               (case find_use h is_arg OpLoad (i + 1) (drop (i + 1) binstrs)
                       (canReplace0, None) of
                  (canReplace, loadAfter) \<Rightarrow>
                    if \<not> canReplace then Inr st
                    else
                      (case loadAfter of
                         None \<Rightarrow>
                           (case storeBefore of
                              None \<Rightarrow> Inr st
                            | Some (sb, _) \<Rightarrow>
                                (case arg_at (h sb) 1 of
                                   None \<Rightarrow> Inl NullDeref
                                 | Some src \<Rightarrow>
                                     Inr (st\<lparr>st_funcops := erase_item (st_funcops st) sb,
                                             st_vars := erase_item (st_vars st) arg,
                                             st_heap := set_argument instr a src h\<rparr>)))
                       | Some la \<Rightarrow>
                           elide_out_parameter binstrs instr a arg storeBefore la st))))"

fun elide_parameters :: "ptr list \<Rightarrow> nat \<Rightarrow> ptr \<Rightarrow> nat list \<Rightarrow> inliner \<Rightarrow> error + inliner" where
  "elide_parameters binstrs i instr [] st = Inr st"
| "elide_parameters binstrs i instr (a # as) st =
     (case elide_parameter binstrs i instr a st of
        Inl e \<Rightarrow> Inl e
      | Inr st' \<Rightarrow> elide_parameters binstrs i instr as st')"

text \<open>Lines 1497--1813: the body of the loop over the instructions of a block, for
  \<^verbatim>\<open>instr = block->block->instructions[i]\<close>.\<close>

definition process_instruction ::
  "nat \<Rightarrow> SPVFunction \<Rightarrow> ptr list \<Rightarrow> nat \<Rightarrow> inliner \<Rightarrow> error + inliner" where
  "process_instruction fuel func binstrs i st =
     (let instr = binstrs ! i;
          st0 = (if instr \<notin> st_ignore st then st\<lparr>st_funcops := st_funcops st @ [instr]\<rparr>
                 else st)
      in if op (st_heap st0 instr) = None then Inr st0
         else
           (case fold_arguments fuel func instr st0 of
              Inl e \<Rightarrow> Inl e
            | Inr st1 \<Rightarrow>
                (case merge_single_store fuel func instr st1 of
                   Inl e \<Rightarrow> Inl e
                 | Inr st2 \<Rightarrow>
                     (let st3 = merge_store_temp instr st2 in
                      if opcode (st_heap st3 instr) = OpFunctionCall
                      then elide_parameters binstrs i instr
                             [0 ..< length (arguments_of (st_heap st3 instr))] st3
                      else Inr st3))))"

fun process_instructions ::
  "nat \<Rightarrow> SPVFunction \<Rightarrow> ptr list \<Rightarrow> nat list \<Rightarrow> inliner \<Rightarrow> error + inliner" where
  "process_instructions fuel func binstrs [] st = Inr st"
| "process_instructions fuel func binstrs (i # is) st =
     (case process_instruction fuel func binstrs i st of
        Inl e \<Rightarrow> Inl e
      | Inr st' \<Rightarrow> process_instructions fuel func binstrs is st')"

text \<open>\<^verbatim>\<open>ids[x]\<close> of the module's id table.\<close>

definition ids_at :: "ptr option list \<Rightarrow> 32 word \<Rightarrow> ptr option" where
  "ids_at ids x = (if unat x < length ids then ids ! unat x else None)"

text \<open>Lines 1815--1832: the merge and exit instructions of a block. The condition of a
  branch and the value of a return are taken out of the emit list.\<close>

definition push_flow :: "ptr option list \<Rightarrow> ptr \<Rightarrow> inliner \<Rightarrow> inliner" where
  "push_flow ids b st =
     (let h = st_heap st;
          st1 = (case block (h b) of None \<Rightarrow> st
                 | Some blk \<Rightarrow> (case mergeFlow blk of None \<Rightarrow> st
                               | Some m \<Rightarrow> st\<lparr>st_funcops := st_funcops st @ [m]\<rparr>))
      in case block (h b) of None \<Rightarrow> st1
         | Some blk \<Rightarrow>
             (case exitFlow blk of
                None \<Rightarrow> st1
              | Some e \<Rightarrow>
                  (let fops1 = (case flow (h e) of None \<Rightarrow> st_funcops st1
                                | Some f \<Rightarrow> (case condition f of None \<Rightarrow> st_funcops st1
                                             | Some c \<Rightarrow> erase_item (st_funcops st1) c));
                       fops2 = (if opcode (h e) = OpReturnValue
                                then (case target0 (h e) of None \<Rightarrow> fops1
                                      | Some t \<Rightarrow> (case ids_at ids t of None \<Rightarrow> fops1
                                                   | Some arg \<Rightarrow> erase_item fops1 arg))
                                else fops1)
                   in st1\<lparr>st_funcops := fops2 @ [e]\<rparr>)))"

text \<open>Lines 1487--1833: one block, the \<open>b\<close>-th of the function; the first label is not
  emitted, and \<^verbatim>\<open>ignore_items\<close> starts empty in every block.\<close>

definition process_block ::
  "nat \<Rightarrow> ptr option list \<Rightarrow> SPVFunction \<Rightarrow> nat \<Rightarrow> inliner \<Rightarrow> error + inliner" where
  "process_block fuel ids func b st =
     (let blk = blocks func ! b;
          st0 = (if b > 0 then st\<lparr>st_funcops := st_funcops st @ [blk]\<rparr> else st)
                  \<lparr>st_ignore := {}\<rparr>;
          binstrs = block_instructions (st_heap st0 blk)
      in case process_instructions fuel func binstrs [0 ..< length binstrs] st0 of
           Inl e \<Rightarrow> Inl e
         | Inr st1 \<Rightarrow> Inr (push_flow ids blk st1))"

fun process_blocks ::
  "nat \<Rightarrow> ptr option list \<Rightarrow> SPVFunction \<Rightarrow> nat list \<Rightarrow> inliner \<Rightarrow> error + inliner" where
  "process_blocks fuel ids func [] st = Inr st"
| "process_blocks fuel ids func (b # bs) st =
     (case process_block fuel ids func b st of
        Inl e \<Rightarrow> Inl e
      | Inr st' \<Rightarrow> process_blocks fuel ids func bs st')"

text \<open>The inliner over one function, from \<^verbatim>\<open>vars = func->variables\<close> and an empty
  \<^verbatim>\<open>funcops\<close>.\<close>

definition inline_function ::
  "nat \<Rightarrow> ptr option list \<Rightarrow> heap \<Rightarrow> SPVFunction \<Rightarrow> error + inliner" where
  "inline_function fuel ids h func =
     process_blocks fuel ids func [0 ..< length (blocks func)]
       \<lparr>st_heap = h, st_funcops = [], st_vars = variables func, st_ignore = {}\<rparr>"

text \<open>Lines 1484--1883 in sequence: the inliner, then the sweep over its emit list.\<close>

definition emit_list :: "nat \<Rightarrow> ptr option list \<Rightarrow> heap \<Rightarrow> SPVFunction \<Rightarrow> error + ptr list" where
  "emit_list fuel ids h func =
     (case inline_function fuel ids h func of
        Inl e \<Rightarrow> Inl e
      | Inr st \<Rightarrow> sweep (st_heap st) 0 (st_funcops st))"

section \<open>The module, its header and the id table\<close>

text \<open>
  \<^verbatim>\<open>struct SPVModule\<close>, with the collections the header check and \<^verbatim>\<open>GetByID\<close>
  touch. \<open>operations\<close> owns the instructions: the address of an instruction is its index
  in \<open>operations\<close>. The constructor leaves every vector empty.
\<close>

record SPVModule =
  moduleVersion :: "32 word"
  generator :: "32 word"
  spirv :: "32 word list"
  operations :: "SPVInstruction list"
  ids :: "ptr option list"
  globals :: "ptr list"
  funcs :: "ptr list"

definition new_SPVModule :: SPVModule where
  "new_SPVModule = \<lparr>moduleVersion = 0, generator = 0, spirv = [], operations = [], ids = [],
     globals = [], funcs = []\<rparr>"

definition MagicNumber :: "32 word" where
  "MagicNumber = 0x07230203"

text \<open>The two \<^verbatim>\<open>RDCERR\<close> messages of the header check.\<close>

datatype diagnostic = UnrecognisedMagic "32 word" | UnsupportedVersion "32 word"

text \<open>
  How the header part of \<^verbatim>\<open>ParseSPIRV\<close> (lines 2693--2716) ends: with a diagnostic and
  \<^verbatim>\<open>return\<close>, or accepted and on to the two passes. The function reads \<^verbatim>\<open>spirv[0]\<close> to
  \<^verbatim>\<open>spirv[4]\<close> without looking at \<^verbatim>\<open>spirvLength\<close>; a read past the end of the buffer
  is \<open>HeaderTruncated\<close>.
\<close>

datatype header_result =
    Rejected diagnostic SPVModule
  | Accepted SPVModule
  | HeaderTruncated

text \<open>\<^verbatim>\<open>vector::resize\<close> with value-initialised (\<^verbatim>\<open>NULL\<close>) new elements.\<close>

definition resize :: "nat \<Rightarrow> 'a option list \<Rightarrow> 'a option list" where
  "resize n xs = take n xs @ replicate (n - length xs) None"

text \<open>\<^verbatim>\<open>spv::Version\<close> is a constant of \<^verbatim>\<open>spirv.hpp\<close>, which is not among the sources:
  it is the parameter \<open>version\<close>.\<close>

definition ParseSPIRV_header :: "32 word \<Rightarrow> 32 word list \<Rightarrow> SPVModule \<Rightarrow> header_result" where
  "ParseSPIRV_header version buf module =
     (case buf of
        [] \<Rightarrow> HeaderTruncated
      | magic # buf1 \<Rightarrow>
          if magic \<noteq> MagicNumber then Rejected (UnrecognisedMagic magic) module
          else
            (case buf1 of
               [] \<Rightarrow> HeaderTruncated
             | v # buf2 \<Rightarrow>
                 (let module1 = module\<lparr>moduleVersion := v\<rparr> in
                  if v \<noteq> version then Rejected (UnsupportedVersion v) module1
                  else
                    (case buf2 of
                       gen # bound # reserved # _ \<Rightarrow>
                         Accepted (module1\<lparr>spirv := buf, generator := gen,
                                           ids := resize (unat bound) (ids module1)\<rparr>)
                     | _ \<Rightarrow> HeaderTruncated))))"

text \<open>
  \<^verbatim>\<open>ParseSPIRV\<close>: the header, then the two passes over the instruction words (lines
  2718--3689). The rejected paths return before the passes, which are the parameter
  \<open>passes\<close> here.
\<close>

definition ParseSPIRV ::
  "(SPVModule \<Rightarrow> SPVModule) \<Rightarrow> 32 word \<Rightarrow> 32 word list \<Rightarrow> SPVModule \<Rightarrow> header_result" where
  "ParseSPIRV passes version buf module =
     (case ParseSPIRV_header version buf module of
        Accepted m \<Rightarrow> Accepted (passes m)
      | r \<Rightarrow> r)"

text \<open>\<^verbatim>\<open>SPVModule::GetByID\<close>, lines 1334--1349. \<^verbatim>\<open>ids[id]\<close> is not checked against
  the size of \<^verbatim>\<open>ids\<close>.\<close>

definition GetByID :: "SPVModule \<Rightarrow> 32 word \<Rightarrow> error + (ptr \<times> SPVModule)" where
  "GetByID m idn =
     (if length (ids m) \<le> unat idn then Inl (IndexOutOfRange (unat idn))
      else
        (case ids m ! unat idn of
           Some p \<Rightarrow> Inr (p, m)
         | None \<Rightarrow>
             (let p = length (operations m) in
              Inr (p, m\<lparr>operations :=
                           operations m @ [new_SPVInstruction\<lparr>opcode := OpUnknown, ident := idn\<rparr>],
                        ids := (ids m)[unat idn := Some p]\<rparr>))))"

text \<open>
  What the two passes do to \<^verbatim>\<open>operations\<close> and \<^verbatim>\<open>ids\<close>. Every case of the two
  switches is a sequence of these statements: \<^verbatim>\<open>operations.push_back(new
  SPVInstruction())\<close> at the head of the first loop, calls of \<^verbatim>\<open>GetByID\<close>,
  \<^verbatim>\<open>module.ids[x] = &op\<close> for an instruction \<^verbatim>\<open>op\<close> of \<^verbatim>\<open>operations\<close>, and
  assignments to the fields of instructions. \<open>parser_reach m m'\<close>: the parser can get from
  \<open>m\<close> to \<open>m'\<close> by such statements, with every index inside its vector.
\<close>

inductive parser_reach :: "SPVModule \<Rightarrow> SPVModule \<Rightarrow> bool" where
  reach_refl: "parser_reach m m"
| reach_push: "parser_reach m m1 \<Longrightarrow>
     parser_reach m (m1\<lparr>operations := operations m1 @ [new_SPVInstruction]\<rparr>)"
| reach_GetByID: "parser_reach m m1 \<Longrightarrow> GetByID m1 x = Inr (p, m2) \<Longrightarrow> parser_reach m m2"
| reach_ids: "parser_reach m m1 \<Longrightarrow> p < length (operations m1) \<Longrightarrow>
     unat (x :: 32 word) < length (ids m1) \<Longrightarrow>
     parser_reach m (m1\<lparr>ids := (ids m1)[unat x := Some p]\<rparr>)"
| reach_field: "parser_reach m m1 \<Longrightarrow> p < length (operations m1) \<Longrightarrow>
     parser_reach m (m1\<lparr>operations := (operations m1)[p := i]\<rparr>)"
| reach_other: "parser_reach m m1 \<Longrightarrow> operations m2 = operations m1 \<Longrightarrow> ids m2 = ids m1 \<Longrightarrow>
     parser_reach m m2"

section \<open>Rendering a vector shuffle\<close>

text \<open>
  The case \<^verbatim>\<open>spv::OpVectorShuffle\<close> of \<^verbatim>\<open>SPVInstruction::Disassemble\<close>, lines
  992--1056. Its inputs: \<^verbatim>\<open>inlineOp\<close>, the name of the result type, the id name, the
  size of the first source vector, \<^verbatim>\<open>op->GetArg(ids, n, arg)\<close> as the function \<open>GetArg\<close>,
  and the selector literals. All selector arithmetic is \<^verbatim>\<open>uint32_t\<close>.
\<close>

text \<open>The first loop, lines 1006--1013: \<^verbatim>\<open>s\<close> is reduced and then not used; the maximum
  is taken over \<^verbatim>\<open>op->literals[i]\<close>.\<close>

fun maxShuffle :: "32 word \<Rightarrow> 32 word list \<Rightarrow> 32 word \<Rightarrow> 32 word" where
  "maxShuffle vectorSize [] m = m"
| "maxShuffle vectorSize (lit # lits) m =
     (let s = (if lit > vectorSize then lit - vectorSize else lit)
      in maxShuffle vectorSize lits (max m lit))"

text \<open>The second loop, lines 1023--1050, from position \<open>i\<close> with \<^verbatim>\<open>lastvec\<close> and the text
  so far.\<close>

fun swizzles :: "32 word \<Rightarrow> (nat \<Rightarrow> string) \<Rightarrow> int \<Rightarrow> nat \<Rightarrow> 32 word list \<Rightarrow> string \<Rightarrow> string" where
  "swizzles vectorSize GetArg lastvec i [] ret = ret"
| "swizzles vectorSize GetArg lastvec i (lit # lits) ret =
     (let (s, vec) = (if lit = 0xFFFFFFFF then (4, 0)
                      else if lit > vectorSize then (lit - vectorSize, 1)
                      else (lit, 0 :: int));
          ret1 = (if vec \<noteq> lastvec
                  then ret @ (if i > 0 then '', '' else []) @ GetArg 0 @ ''.''
                  else ret)
      in swizzles vectorSize GetArg vec (i + 1) lits (ret1 @ [''xyzw_'' ! unat s]))"

definition Disassemble_VectorShuffle ::
  "bool \<Rightarrow> string \<Rightarrow> string \<Rightarrow> 32 word \<Rightarrow> (nat \<Rightarrow> string) \<Rightarrow> 32 word list \<Rightarrow> string" where
  "Disassemble_VectorShuffle inlineOp typeName idName vectorSize GetArg lits =
     (let ret0 = (if \<not> inlineOp then typeName @ '' '' @ idName @ '' = '' else []);
          ret1 = ret0 @ typeName @ ''('';
          ret2 = (if maxShuffle vectorSize lits 0 < 4
                  then swizzles vectorSize GetArg (- 1) 0 lits ret1
                  else ret1)
      in ret2 @ '')'')"

section \<open>Reflection: the order of the binding tables\<close>

text \<open>
  \<^verbatim>\<open>BindpointMap\<close> is declared in \<^verbatim>\<open>api/replay/renderdoc_replay.h\<close>, which is not
  among the sources. Its fields here are those that \<^verbatim>\<open>MakeReflection\<close> assigns (lines
  2509--2524); \<open>bindset\<close> and \<open>bind\<close> are \<^verbatim>\<open>int32_t\<close> (the casts of lines 2514--2516),
  compared as signed numbers.
\<close>

record BindpointMap =
  bindset :: "32 word"
  bind :: "32 word"
  used :: bool
  arraySize :: "32 word"

text \<open>\<^verbatim>\<open>struct bindpair\<close>, with \<open>bindmap\<close> for its member \<^verbatim>\<open>map\<close>.\<close>

record 'a bindpair =
  bindmap :: BindpointMap
  bindres :: 'a

text \<open>\<^verbatim>\<open>bindpair::operator<\<close>, lines 2332--2346.\<close>

definition bindpair_less :: "'a bindpair \<Rightarrow> 'a bindpair \<Rightarrow> bool" where
  "bindpair_less a b =
     (if bindset (bindmap a) \<noteq> bindset (bindmap b)
      then sint (bindset (bindmap a)) < sint (bindset (bindmap b))
      else if bind (bindmap a) = - 1 \<and> bind (bindmap b) = - 1 then False
      else if bind (bindmap a) = - 1 then False
      else if bind (bindmap b) = - 1 then True
      else sint (bind (bindmap a)) < sint (bind (bindmap b)))"

text \<open>
  \<^verbatim>\<open>std::sort\<close> belongs to the C++ library: it leaves a permutation of the vector in
  which no element is less than an earlier one, and does not say which one when elements
  are equivalent. \<open>sort_result lt xs ys\<close> says that \<open>ys\<close> is such a vector for \<open>xs\<close>; what
  is proved of the tables is proved of every such vector.
\<close>

definition sort_result :: "('a \<Rightarrow> 'a \<Rightarrow> bool) \<Rightarrow> 'a list \<Rightarrow> 'a list \<Rightarrow> bool" where
  "sort_result lt xs ys = (mset ys = mset xs \<and> sorted_wrt (\<lambda>a b. \<not> lt b a) ys)"

text \<open>One sort that meets the contract, the insertion sort by the comparison.\<close>

fun insert_sorted :: "('a \<Rightarrow> 'a \<Rightarrow> bool) \<Rightarrow> 'a \<Rightarrow> 'a list \<Rightarrow> 'a list" where
  "insert_sorted lt x [] = [x]"
| "insert_sorted lt x (y # ys) =
     (if \<not> lt y x then x # y # ys else y # insert_sorted lt x ys)"

definition insertion_sort :: "('a \<Rightarrow> 'a \<Rightarrow> bool) \<Rightarrow> 'a list \<Rightarrow> 'a list" where
  "insertion_sort lt xs = foldr (insert_sorted lt) xs []"

text \<open>The decorations that matter to the bind point; \<^verbatim>\<open>spv::Decoration\<close> is an enum of
  \<^verbatim>\<open>spirv.hpp\<close>.\<close>

datatype Decoration = DecorationDescriptorSet | DecorationBinding | DecorationOther "32 word"

record SPVDecoration =
  decoration :: Decoration
  val :: "32 word"

text \<open>Lines 2505--2517 and 2522--2524 (the same at 2592--2608): \<^verbatim>\<open>bindmap = {0}\<close>, the
  bind point \<open>-1\<close> unless a decoration gives one.\<close>

fun decorate_bindmap :: "SPVDecoration list \<Rightarrow> BindpointMap \<Rightarrow> BindpointMap" where
  "decorate_bindmap [] m = m"
| "decorate_bindmap (d # ds) m =
     decorate_bindmap ds
       ((if decoration d = DecorationBinding then (\<lambda>x. x\<lparr>bind := val d\<rparr>) else (\<lambda>x. x))
          ((if decoration d = DecorationDescriptorSet then (\<lambda>x. x\<lparr>bindset := val d\<rparr>)
            else (\<lambda>x. x)) m))"

definition make_bindmap :: "SPVDecoration list \<Rightarrow> bool \<Rightarrow> 32 word \<Rightarrow> BindpointMap" where
  "make_bindmap decorations isUsed arrSize =
     (decorate_bindmap decorations \<lparr>bindset = 0, bind = - 1, used = False, arraySize = 0\<rparr>)
       \<lparr>used := isUsed, arraySize := arrSize\<rparr>"

text \<open>Lines 2665--2690 for one of the two tables, from the sorted vector: per entry the
  mapping with \<open>-1\<close> rewritten to 0 and the reflection entry with its index as
  \<^verbatim>\<open>bindPoint\<close>.\<close>

definition fix_bind :: "BindpointMap \<Rightarrow> BindpointMap" where
  "fix_bind m = (if bind m = - 1 then m\<lparr>bind := 0\<rparr> else m)"

definition binding_table :: "'a bindpair list \<Rightarrow> BindpointMap list \<times> ('a \<times> 32 word) list" where
  "binding_table sorted_pairs =
     (map (\<lambda>p. fix_bind (bindmap p)) sorted_pairs,
      map (\<lambda>(i, p). (bindres p, word_of_nat i)) (enumerate 0 sorted_pairs))"

section \<open>The properties, in the words of the specification\<close>

subsection \<open>The sweep\<close>

text \<open>
  The targets of a flow-control instruction, as the parser records them. Position \<open>i\<close> of
  the emit list holds a redundant branch: an \<^verbatim>\<open>OpBranch L\<close> with \<^verbatim>\<open>OpLabel L\<close> right after
  it. \<open>L\<close> is targeted elsewhere when it is among the targets of an instruction at another
  position of the list. The label after a redundant branch is dead when it is not targeted
  elsewhere. \<open>spec_sweep\<close> drops every redundant branch and every dead label and keeps all
  else in order.
\<close>

definition flow_targets :: "SPVInstruction \<Rightarrow> 32 word list" where
  "flow_targets i = (case flow i of None \<Rightarrow> [] | Some f \<Rightarrow> targets f)"

definition redundant_branch :: "heap \<Rightarrow> ptr list \<Rightarrow> nat \<Rightarrow> bool" where
  "redundant_branch h ops i =
     (i + 1 < length ops \<and> opcode (h (ops ! i)) = OpBranch
      \<and> opcode (h (ops ! (i + 1))) = OpLabel
      \<and> flow_targets (h (ops ! i)) = [ident (h (ops ! (i + 1)))])"

definition targeted_elsewhere :: "heap \<Rightarrow> ptr list \<Rightarrow> nat \<Rightarrow> 32 word \<Rightarrow> bool" where
  "targeted_elsewhere h ops i L =
     (L \<in> set (concat (map (\<lambda>b. flow_targets (h (ops ! b)))
                         (filter (\<lambda>b. b \<noteq> i) [0 ..< length ops]))))"

definition dead_label :: "heap \<Rightarrow> ptr list \<Rightarrow> nat \<Rightarrow> bool" where
  "dead_label h ops i =
     (0 < i \<and> redundant_branch h ops (i - 1)
      \<and> \<not> targeted_elsewhere h ops (i - 1) (ident (h (ops ! i))))"

definition swept_keep :: "heap \<Rightarrow> ptr list \<Rightarrow> nat \<Rightarrow> bool" where
  "swept_keep h ops i = (\<not> redundant_branch h ops i \<and> \<not> dead_label h ops i)"

definition spec_sweep :: "heap \<Rightarrow> ptr list \<Rightarrow> ptr list" where
  "spec_sweep h ops = map ((!) ops) (filter (swept_keep h ops) [0 ..< length ops])"

text \<open>Two facts of every parsed function: label ids are not repeated (result ids are
  unique), and the parser gives an \<^verbatim>\<open>OpLabel\<close> no \<^verbatim>\<open>flow\<close> and an \<^verbatim>\<open>OpBranch\<close> a
  \<^verbatim>\<open>flow\<close> with exactly one target.\<close>

definition label_ids :: "heap \<Rightarrow> ptr list \<Rightarrow> 32 word list" where
  "label_ids h ops = map (\<lambda>p. ident (h p)) (filter (\<lambda>p. opcode (h p) = OpLabel) ops)"

definition parsed_flow :: "SPVInstruction \<Rightarrow> bool" where
  "parsed_flow i =
     ((opcode i \<noteq> OpLabel \<or> flow i = None) \<and>
      (opcode i \<noteq> OpBranch \<or>
         (case flow i of None \<Rightarrow> False | Some f \<Rightarrow> length (targets f) = 1)))"

subsection \<open>The sweep, as the loop runs\<close>

text \<open>
  The tests of the loop, at position \<open>i\<close> of the list it started from: the pair that the
  loop looks for, the label that it drops with the branch, and the positions that it
  keeps. \<open>kept\<close> is the part of the list that the loop has passed when it stands at
  position \<open>k\<close>; \<open>swept\<close> is how the loop ends on what is left.
\<close>

definition pair_at :: "heap \<Rightarrow> ptr list \<Rightarrow> nat \<Rightarrow> bool" where
  "pair_at h ops i =
     (i + 1 < length ops \<and> opcode (h (ops ! i)) = OpBranch
      \<and> opcode (h (ops ! (i + 1))) = OpLabel
      \<and> target0 (h (ops ! i)) = Some (ident (h (ops ! (i + 1)))))"

definition dropped_label :: "heap \<Rightarrow> ptr list \<Rightarrow> nat \<Rightarrow> bool" where
  "dropped_label h ops i =
     (0 < i \<and> pair_at h ops (i - 1) \<and> \<not> refd h ops (i - 1) (ident (h (ops ! i))))"

definition stays_at :: "heap \<Rightarrow> ptr list \<Rightarrow> nat \<Rightarrow> bool" where
  "stays_at h ops i = (\<not> pair_at h ops i \<and> \<not> dropped_label h ops i)"

definition kept :: "heap \<Rightarrow> ptr list \<Rightarrow> nat \<Rightarrow> ptr list" where
  "kept h ops k = map ((!) ops) (filter (stays_at h ops) [0 ..< k])"

definition swept :: "ptr list \<Rightarrow> error + ptr list" where
  "swept xs = (if xs = [] then Inl (IndexOutOfRange 0) else Inr xs)"

subsection \<open>Purity\<close>

text \<open>The instructions of a function in linear block order; a store to \<open>v\<close>; a store to
  \<open>v\<close> strictly between \<open>frm\<close> and \<open>to\<close> in that order.\<close>

definition linear :: "heap \<Rightarrow> SPVFunction \<Rightarrow> ptr list" where
  "linear h func = concat (map (\<lambda>b. block_instructions (h b)) (blocks func))"

definition is_store_to :: "heap \<Rightarrow> ptr \<Rightarrow> ptr \<Rightarrow> bool" where
  "is_store_to h v p = (opcode (h p) = OpStore \<and> arg_at (h p) 0 = Some v)"

definition stored_between :: "heap \<Rightarrow> ptr list \<Rightarrow> ptr \<Rightarrow> ptr \<Rightarrow> ptr \<Rightarrow> bool" where
  "stored_between h L v frm to =
     list_ex (\<lambda>j. L ! j = to \<and>
        list_ex (\<lambda>k. is_store_to h v (L ! k) \<and> list_ex (\<lambda>i. L ! i = frm) [0 ..< k]) [0 ..< j])
       [0 ..< length L]"

text \<open>\<open>frm\<close> is a load of the variable \<open>v\<close>; the operands that the recursion visits (all
  but the destination of a store).\<close>

definition loads_variable :: "heap \<Rightarrow> ptr \<Rightarrow> ptr \<Rightarrow> bool" where
  "loads_variable h frm v =
     (opcode (h frm) = OpLoad \<and> arg_at (h frm) 0 = Some v \<and> var (h v) \<noteq> None)"

definition visited_operands :: "SPVInstruction \<Rightarrow> ptr list" where
  "visited_operands i =
     (if opcode i = OpStore then drop 1 (arguments_of i) else arguments_of i)"

subsection \<open>The gates of argument inlining\<close>

text \<open>Conditions 1 and 2 of the specification for folding the operand \<open>arg\<close> into
  \<open>instr\<close>: an operand that is an operation has complexity below the limit (2 in a
  composite construct, else 3) and at most two arguments, unless it is an access chain, a
  select or a composite construct.\<close>

definition passes_gates :: "heap \<Rightarrow> ptr \<Rightarrow> ptr \<Rightarrow> bool" where
  "passes_gates h instr arg =
     (case op (h arg) of
        None \<Rightarrow> True
      | Some aop \<Rightarrow>
          complexity aop < (if opcode (h instr) = OpCompositeConstruct then 2 else 3) \<and>
          (length (arguments aop) \<le> 2 \<or> opcode (h arg) = OpAccessChain \<or>
           opcode (h arg) = OpSelect \<or> opcode (h arg) = OpCompositeConstruct))"

section \<open>Example modules\<close>

text \<open>Instructions as the parser builds them, and an arena from a list of them (address
  = position).\<close>

definition heap_of :: "SPVInstruction list \<Rightarrow> heap" where
  "heap_of is p = (if p < length is then is ! p else new_SPVInstruction)"

definition mk_op :: "Op \<Rightarrow> 32 word \<Rightarrow> ptr list \<Rightarrow> SPVInstruction" where
  "mk_op oc n as = new_SPVInstruction\<lparr>opcode := oc, ident := n,
      op := Some \<lparr>complexity = (if oc = OpCompositeInsert then 100 else 0), inlineArgs = 0,
                 arguments = as\<rparr>\<rparr>"

definition mk_constant :: "32 word \<Rightarrow> SPVInstruction" where
  "mk_constant n = new_SPVInstruction\<lparr>opcode := OpConstant, ident := n\<rparr>"

definition mk_variable :: "32 word \<Rightarrow> SPVInstruction" where
  "mk_variable n = new_SPVInstruction\<lparr>opcode := OpVariable, ident := n,
      var := Some \<lparr>storage = 7\<rparr>\<rparr>"

definition mk_block :: "32 word \<Rightarrow> ptr list \<Rightarrow> ptr option \<Rightarrow> ptr option \<Rightarrow> SPVInstruction" where
  "mk_block n is m e = new_SPVInstruction\<lparr>opcode := OpLabel, ident := n,
      block := Some \<lparr>instructions = is, mergeFlow = m, exitFlow = e\<rparr>\<rparr>"

definition mk_flow :: "Op \<Rightarrow> ptr option \<Rightarrow> 32 word list \<Rightarrow> SPVInstruction" where
  "mk_flow oc c ts = new_SPVInstruction\<lparr>opcode := oc,
      flow := Some \<lparr>condition = c, targets = ts\<rparr>\<rparr>"

text \<open>
  A function of one block: \<open>n1 = -c; n2 = -n1; n3 = -n2; Store v n3; x = Load v; Return\<close>,
  with the constant \<open>c\<close> at address 0, the local variable \<open>v\<close> at 1, the three negations at
  2, 3, 4, the store at 5, the load at 6, the label at 7 and the return at 8.
\<close>

definition negate_heap :: heap where
  "negate_heap = heap_of
     [mk_constant 1, mk_variable 2, mk_op OpFNegate 3 [0], mk_op OpFNegate 4 [2],
      mk_op OpFNegate 5 [3], mk_op OpStore 0 [1, 4], mk_op OpLoad 6 [1],
      mk_block 7 [2, 3, 4, 5, 6] None (Some 8), mk_flow OpReturn None []]"

definition negate_func :: SPVFunction where
  "negate_func = \<lparr>blocks = [7], variables = [1]\<rparr>"

text \<open>
  A function of one block with a composite construct of 33 operands:
  \<open>m = Op3 c c c; w = Construct m c ... c; Return\<close>, with \<open>c\<close> at address 0, \<open>m\<close> at 1, the
  construct at 2, the label at 3 and the return at 4.
\<close>

definition wide_heap :: heap where
  "wide_heap = heap_of
     [mk_constant 1, mk_op (OpOther 50) 2 [0, 0, 0],
      mk_op OpCompositeConstruct 3 (1 # replicate 32 0),
      mk_block 4 [1, 2] None (Some 4), mk_flow OpReturn None []]"

definition wide_func :: SPVFunction where
  "wide_func = \<lparr>blocks = [3], variables = []\<rparr>"

text \<open>
  A function of one block that stores between a load and its use:
  \<open>x = Load v; Store v c; y = -x; Return\<close>, with \<open>c\<close> at address 0, \<open>v\<close> at 1, the load at 2,
  the store at 3, the negation at 4, the label at 5 and the return at 6.
\<close>

definition reload_heap :: heap where
  "reload_heap = heap_of
     [mk_constant 1, mk_variable 2, mk_op OpLoad 3 [1], mk_op OpStore 0 [1, 0],
      mk_op OpFNegate 4 [2], mk_block 5 [2, 3, 4] None (Some 6), mk_flow OpReturn None []]"

definition reload_func :: SPVFunction where
  "reload_func = \<lparr>blocks = [5], variables = [1]\<rparr>"

text \<open>
  An emit list with both kinds of pair: \<open>Branch 7; Label 7\<close> with no other reference to 7,
  and \<open>Branch 11; Label 11\<close> where the conditional branch at address 2 also goes to 11.
\<close>

definition sweep_heap :: heap where
  "sweep_heap = heap_of
     [mk_flow OpBranch None [7], mk_block 7 [] None (Some 2),
      mk_flow OpBranchConditional (Some 7) [9, 11], mk_block 9 [] None (Some 4),
      mk_flow OpBranch None [11], mk_block 11 [] None (Some 6), mk_flow OpReturn None []]"



text \<open>
  A function of two blocks, the second without a terminator: label 5 (address 0) ends in
  \<open>Branch 7\<close> (address 1), and label 7 (address 2) is empty.
\<close>

definition open_heap :: heap where
  "open_heap = heap_of
     [mk_block 5 [] None (Some 1), mk_flow OpBranch None [7], mk_block 7 [] None None]"

definition open_func :: SPVFunction where
  "open_func = \<lparr>blocks = [0, 2], variables = []\<rparr>"

text \<open>Observations of a run of the inliner on which equality can be computed: the
  annotations (complexity, \<open>inlineArgs\<close>) of the instructions at the given addresses, and
  the emit list.\<close>

definition annotations :: "ptr list \<Rightarrow> error + inliner \<Rightarrow> error + (int \<times> 32 word) list" where
  "annotations ps r =
     (case r of Inl e \<Rightarrow> Inl e
      | Inr st \<Rightarrow> Inr (map (\<lambda>p. (complexity_of (st_heap st p), inlineArgs_of (st_heap st p))) ps))"

definition emitted :: "error + inliner \<Rightarrow> error + ptr list" where
  "emitted r = (case r of Inl e \<Rightarrow> Inl e | Inr st \<Rightarrow> Inr (st_funcops st))"

text \<open>A second run of the inliner, over the state the first run left.\<close>

definition inline_twice :: "nat \<Rightarrow> ptr option list \<Rightarrow> heap \<Rightarrow> SPVFunction \<Rightarrow> error + inliner" where
  "inline_twice fuel idtab h func =
     (case inline_function fuel idtab h func of
        Inl e \<Rightarrow> Inl e
      | Inr st \<Rightarrow> inline_function fuel idtab (st_heap st) func)"

subsection \<open>Header and id table\<close>

text \<open>A module that contains no instructions.\<close>

definition no_instructions :: "SPVModule \<Rightarrow> bool" where
  "no_instructions m = (operations m = [] \<and> ids m = [] \<and> globals m = [] \<and> funcs m = [])"

text \<open>Every entry of the id table points into \<open>operations\<close>.\<close>

definition ids_valid :: "SPVModule \<Rightarrow> bool" where
  "ids_valid m = list_all (\<lambda>e. case e of None \<Rightarrow> True | Some p \<Rightarrow> p < length (operations m)) (ids m)"

text \<open>Passes that look up id 1 and nothing else, and a header with bound 3.\<close>

definition lookup_pass :: "SPVModule \<Rightarrow> SPVModule" where
  "lookup_pass m = (case GetByID m 1 of Inl e \<Rightarrow> m | Inr (p, m') \<Rightarrow> m')"

definition small_header :: "32 word list" where
  "small_header = [MagicNumber, 99, 0, 3, 0]"

subsection \<open>The order of a binding table\<close>

text \<open>Entry \<open>a\<close> may stand before entry \<open>b\<close> in the order that the comparison gives: its
  descriptor set is smaller, or the sets are equal and \<open>b\<close> has no binding (\<open>-1\<close>) or both
  have one and that of \<open>a\<close> is not the greater.\<close>

definition table_order :: "BindpointMap \<Rightarrow> BindpointMap \<Rightarrow> bool" where
  "table_order a b =
     (sint (bindset a) < sint (bindset b) \<or>
      (bindset a = bindset b \<and>
       (bind b = - 1 \<or> (bind a \<noteq> - 1 \<and> sint (bind a) \<le> sint (bind b)))))"

text \<open>The order of the claim and of the comments of the code (lines 2506--2508: "If no
  binding is found, we set -1 and sort to the end of the resources list"; line 2671: "They
  were sorted to the end"): no entry with input binding \<open>-1\<close> stands before an entry that
  has a binding.\<close>

definition unbound_last :: "BindpointMap list \<Rightarrow> bool" where
  "unbound_last ms = sorted_wrt (\<lambda>a b. \<not> (bind a = - 1 \<and> bind b \<noteq> - 1)) ms"

text \<open>Two constant blocks: \<open>A\<close> decorated with set 1 and binding 0, \<open>B\<close> with no
  decoration.\<close>

definition two_blocks :: "string bindpair list" where
  "two_blocks =
     [\<lparr>bindmap = make_bindmap [\<lparr>decoration = DecorationDescriptorSet, val = 1\<rparr>,
                               \<lparr>decoration = DecorationBinding, val = 0\<rparr>] True 1,
       bindres = ''A''\<rparr>,
      \<lparr>bindmap = make_bindmap [] False 1, bindres = ''B''\<rparr>]"

text \<open>Three resources of set 0, with bindings 2, none and 1.\<close>

definition three_resources :: "string bindpair list" where
  "three_resources =
     [\<lparr>bindmap = make_bindmap [\<lparr>decoration = DecorationBinding, val = 2\<rparr>] True 1,
       bindres = ''r2''\<rparr>,
      \<lparr>bindmap = make_bindmap [] False 1, bindres = ''unbound''\<rparr>,
      \<lparr>bindmap = make_bindmap [\<lparr>decoration = DecorationBinding, val = 1\<rparr>] True 1,
       bindres = ''r1''\<rparr>]"

subsection \<open>A second run of the inliner\<close>

text \<open>
  The conditions under which a second run repeats the first. Every operand of an
  instruction stands before it in the linear order, or outside it; the labels and the
  merge and exit instructions of the blocks are not among the instructions of a block; and
  the first run has left every operand list as it was (it merged no store into a load).
\<close>

definition operands_precede :: "heap \<Rightarrow> ptr list \<Rightarrow> bool" where
  "operands_precede h L =
     list_all (\<lambda>k. list_all (\<lambda>a. a \<notin> set (drop k L)) (arguments_of (h (L ! k))))
       [0 ..< length L]"

definition block_flow :: "SPVInstruction \<Rightarrow> ptr list" where
  "block_flow i =
     (case block i of None \<Rightarrow> []
      | Some blk \<Rightarrow> (case mergeFlow blk of None \<Rightarrow> [] | Some m \<Rightarrow> [m]) @
                    (case exitFlow blk of None \<Rightarrow> [] | Some e \<Rightarrow> [e]))"

definition labels_apart :: "heap \<Rightarrow> SPVFunction \<Rightarrow> bool" where
  "labels_apart h func =
     list_all (\<lambda>p. p \<notin> set (linear h func))
       (blocks func @ concat (map (\<lambda>b. block_flow (h b)) (blocks func)))"

definition operands_kept :: "heap \<Rightarrow> heap \<Rightarrow> ptr list \<Rightarrow> bool" where
  "operands_kept h h' L = list_all (\<lambda>p. arguments_of (h' p) = arguments_of (h p)) L"


definition same_bare :: "SPVInstruction \<Rightarrow> SPVInstruction \<Rightarrow> bool" where
  "same_bare i j =
     (opcode i = opcode j \<and> ident i = ident j \<and> flow i = flow j \<and> block i = block j \<and>
      var i = var j \<and> (op i = None) = (op j = None))"




text \<open>A step that writes to the operations of \<open>T\<close> only, and to nothing but the operation
  payload.\<close>

definition touches :: "ptr set \<Rightarrow> heap \<Rightarrow> heap \<Rightarrow> bool" where
  "touches T h h' = ((\<forall>p. same_bare (h p) (h' p)) \<and> (\<forall>p. p \<notin> T \<longrightarrow> h' p = h p))"

text \<open>
  A function of one block in which the first run folds every operand and rewrites no
  operand list: \<open>n1 = -c; n2 = -n1; Store v n2; Return\<close>, with \<open>c\<close> at address 0, \<open>v\<close> at 1,
  the negations at 2 and 3, the store at 4, the label at 5 and the return at 6.
\<close>

definition short_heap :: heap where
  "short_heap = heap_of
     [mk_constant 1, mk_variable 2, mk_op OpFNegate 3 [0], mk_op OpFNegate 4 [2],
      mk_op OpStore 0 [1, 3], mk_block 5 [2, 3, 4] None (Some 6), mk_flow OpReturn None []]"

definition short_func :: SPVFunction where
  "short_func = \<lparr>blocks = [5], variables = [1]\<rparr>"

definition kept_by_run :: "heap \<Rightarrow> SPVFunction \<Rightarrow> error + inliner \<Rightarrow> bool" where
  "kept_by_run h func r =
     (case r of Inl e \<Rightarrow> False | Inr st \<Rightarrow> operands_kept h (st_heap st) (linear h func))"

text \<open>
  A function of one block with a composite insert of the value emitted just before it:
  \<open>m = Op3 c c c; x = Load v; Store v c; e = Extract x; i = Insert m e; Return\<close>, with
  \<open>c\<close> at address 0, \<open>v\<close> at 1, the instructions at 2 to 6, the label at 7 and the return
  at 8. Neither operand of the insert is folded: \<open>m\<close> has three arguments and \<open>e\<close> reads a
  variable that is stored to before the insert.
\<close>

definition insert_heap :: heap where
  "insert_heap = heap_of
     [mk_constant 1, mk_variable 2, mk_op (OpOther 50) 3 [0, 0, 0], mk_op OpLoad 4 [1],
      mk_op OpStore 0 [1, 0], mk_op OpCompositeExtract 5 [3], mk_op OpCompositeInsert 6 [2, 5],
      mk_block 7 [2, 3, 4, 5, 6] None (Some 8), mk_flow OpReturn None []]"

definition insert_func :: SPVFunction where
  "insert_func = \<lparr>blocks = [7], variables = [1]\<rparr>"

subsection \<open>The sweep after the inliner\<close>

text \<open>The last block of the function is terminated: it has an exit instruction, which is
  not a label.\<close>

definition last_terminated :: "heap \<Rightarrow> SPVFunction \<Rightarrow> bool" where
  "last_terminated h func =
     (blocks func \<noteq> [] \<and>
      (case block (h (last (blocks func))) of
         None \<Rightarrow> False
       | Some blk \<Rightarrow> (case exitFlow blk of None \<Rightarrow> False
                      | Some e \<Rightarrow> opcode (h e) \<noteq> OpLabel)))"


section \<open>The sweep: what it removes, and its accesses\<close>

lemma length_erase_at: "l < length xs \<Longrightarrow> length (erase_at xs l) = length xs - 1"
  by (simp add: erase_at_def)

lemma last_erase_at: "Suc l < length xs \<Longrightarrow> last (erase_at xs l) = last xs"
  by (simp add: erase_at_def)

lemma erase_at_append_drop:
  "k < length ops \<Longrightarrow> erase_at (P @ drop k ops) (length P) = P @ drop (Suc k) ops"
  by (simp add: erase_at_def drop_Suc tl_drop)

text \<open>With a last entry that is no label the list never runs empty, and every index the
  loop uses is inside it.\<close>

lemma sweep_returns:
  "l < length funcops \<Longrightarrow> opcode (h (last funcops)) \<noteq> OpLabel
   \<Longrightarrow> \<exists>r. sweep h l funcops = Inr r \<and> r \<noteq> []"
proof (induction h l funcops rule: sweep.induct)
  case (1 h l funcops)
  note IH = "1.IH" and lt = "1.prems"(1) and lst = "1.prems"(2)
  have ne: "funcops \<noteq> []" using lt by auto
  show ?case
  proof (cases "l < size_minus_1 (length funcops)")
    case False
    then show ?thesis using ne by (subst sweep.simps) simp
  next
    case True
    then have l1: "Suc l < length funcops" using lt ne by (auto simp: size_minus_1_def)
    show ?thesis
    proof (cases "opcode (h (funcops ! l)) = OpBranch")
      case nb: False
      have "\<exists>r. sweep h (l + 1) funcops = Inr r \<and> r \<noteq> []"
        using IH(4) True lt nb l1 lst by simp
      then show ?thesis using True lt nb by (subst sweep.simps) simp
    next
      case br: True
      show ?thesis
      proof (cases "opcode (h (funcops ! (l + 1))) = OpLabel
                  \<and> target0 (h (funcops ! l)) = Some (ident (h (funcops ! (l + 1))))")
        case np: False
        have "\<exists>r. sweep h (l + 1) funcops = Inr r \<and> r \<noteq> []"
          using IH(3) True lt br l1 lst np by simp
        then show ?thesis using True lt br l1 np by (subst sweep.simps) auto
      next
        case pr: True
        then have "funcops ! Suc l \<noteq> last funcops" using lst by auto
        then have l2: "Suc (Suc l) < length funcops"
          using l1 by (metis Suc_lessI diff_Suc_1 last_conv_nth ne)
        show ?thesis
        proof (cases "refd h funcops l (ident (h (funcops ! (l + 1))))")
          case rf: True
          have "\<exists>r. sweep h l (erase_at funcops l) = Inr r \<and> r \<noteq> []"
            using IH(2) True lt br l1 pr rf lst by (simp add: length_erase_at last_erase_at)
          then show ?thesis using True lt br l1 pr rf by (subst sweep.simps) auto
        next
          case nrf: False
          have "\<exists>r. sweep h l (erase_at (erase_at funcops l) l) = Inr r \<and> r \<noteq> []"
            using IH(1) True lt br l1 l2 pr nrf lst
            by (simp add: length_erase_at last_erase_at)
          then show ?thesis using True lt br l1 pr nrf by (subst sweep.simps) auto
        qed
      qed
    qed
  qed
qed

lemma sweep_empty: "sweep h 0 [] = Inl (IndexOutOfRange 0)"
  by (subst sweep.simps) (simp add: size_minus_1_def)

lemma kept_Suc:
  "kept h ops (Suc k) = (if stays_at h ops k then kept h ops k @ [ops ! k] else kept h ops k)"
  by (simp add: kept_def)

lemma set_kept: "k \<le> length ops \<Longrightarrow>
  set (kept h ops k) = {ops ! i |i. i < k \<and> stays_at h ops i}"
  by (auto simp: kept_def)

lemma in_set_drop_nth:
  "x \<in> set (drop n xs) \<longleftrightarrow> (\<exists>i. n \<le> i \<and> i < length xs \<and> xs ! i = x)"
proof
  assume "x \<in> set (drop n xs)"
  then obtain i where "i < length xs - n" "drop n xs ! i = x"
    by (auto simp: in_set_conv_nth)
  then have "n \<le> n + i \<and> n + i < length xs \<and> xs ! (n + i) = x" by auto
  then show "\<exists>i. n \<le> i \<and> i < length xs \<and> xs ! i = x" by blast
next
  assume "\<exists>i. n \<le> i \<and> i < length xs \<and> xs ! i = x"
  then obtain i where i: "n \<le> i" "i < length xs" "xs ! i = x" by blast
  then have "i - n < length (drop n xs)" "drop n xs ! (i - n) = x" by auto
  then show "x \<in> set (drop n xs)" by (metis nth_mem)
qed

lemma refd_iff:
  assumes l: "l < length xs"
  shows "refd h xs l L \<longleftrightarrow> (\<exists>x \<in> set (take l xs) \<union> set (drop (Suc l) xs). is_target (h x) L)"
proof -
  have "refd h xs l L \<longleftrightarrow> (\<exists>b < length xs. b \<noteq> l \<and> is_target (h (xs ! b)) L)"
    by (auto simp: refd_def list_ex_iff)
  also have "\<dots> \<longleftrightarrow> (\<exists>x \<in> set (take l xs) \<union> set (drop (Suc l) xs). is_target (h x) L)"
  proof
    assume "\<exists>b < length xs. b \<noteq> l \<and> is_target (h (xs ! b)) L"
    then obtain b where b: "b < length xs" "b \<noteq> l" "is_target (h (xs ! b)) L" by blast
    show "\<exists>x \<in> set (take l xs) \<union> set (drop (Suc l) xs). is_target (h x) L"
    proof (cases "b < l")
      case True
      then have "xs ! b \<in> set (take l xs)" using b l by (auto simp: in_set_conv_nth)
      then show ?thesis using b by blast
    next
      case False
      then have "Suc l \<le> b" using b by simp
      then have "xs ! b \<in> set (drop (Suc l) xs)" using b by (auto simp: in_set_drop_nth)
      then show ?thesis using b by blast
    qed
  next
    assume "\<exists>x \<in> set (take l xs) \<union> set (drop (Suc l) xs). is_target (h x) L"
    then obtain x where x: "x \<in> set (take l xs) \<union> set (drop (Suc l) xs)" "is_target (h x) L"
      by blast
    from x(1) show "\<exists>b < length xs. b \<noteq> l \<and> is_target (h (xs ! b)) L"
    proof
      assume "x \<in> set (take l xs)"
      then obtain b where "b < l" "xs ! b = x" using l by (auto simp: in_set_conv_nth)
      then have "b < length xs \<and> b \<noteq> l \<and> is_target (h (xs ! b)) L" using x(2) l by simp
      then show ?thesis by blast
    next
      assume "x \<in> set (drop (Suc l) xs)"
      then obtain b where "Suc l \<le> b" "b < length xs" "xs ! b = x"
        by (auto simp: in_set_drop_nth)
      then have "b < length xs \<and> b \<noteq> l \<and> is_target (h (xs ! b)) L" using x(2) by auto
      then show ?thesis by blast
    qed
  qed
  finally show ?thesis .
qed

lemma distinct_map_filter_nth:
  assumes "distinct (map f (filter P xs))" "i < j" "j < length xs" "P (xs ! i)" "P (xs ! j)"
  shows "f (xs ! i) \<noteq> f (xs ! j)"
proof -
  have xs: "xs = take j xs @ xs ! j # drop (Suc j) xs"
    using assms(3) by (simp add: id_take_nth_drop)
  have "distinct (map f (filter P (take j xs)) @ f (xs ! j) # map f (filter P (drop (Suc j) xs)))"
    using assms(1,5) by (subst (asm) xs) simp
  then have "f (xs ! j) \<notin> f ` set (filter P (take j xs))" by auto
  moreover have "xs ! i \<in> set (filter P (take j xs))"
    using assms(2,3,4) by (auto simp: in_set_conv_nth intro!: exI[of _ i])
  ultimately show ?thesis by (metis (no_types, lifting) imageI)
qed

lemma is_target_single:
  "parsed_flow i \<Longrightarrow> opcode i = OpBranch \<Longrightarrow> is_target i L \<Longrightarrow> target0 i = Some L"
  by (cases "flow i")
     (auto simp: parsed_flow_def is_target_def target0_def length_Suc_conv split: list.splits)

text \<open>What the loop has dropped so far was no reference to the label it looks at: a
  dropped branch goes to another label, and a dropped label has no targets.\<close>

lemma kept_refs:
  assumes dist: "distinct (label_ids h ops)"
    and shape: "\<forall>p \<in> set ops. parsed_flow (h p)"
    and rb: "pair_at h ops k"
  shows "(\<exists>x \<in> set (kept h ops k). is_target (h x) (ident (h (ops ! (k + 1)))))
     \<longleftrightarrow> (\<exists>x \<in> set (take k ops). is_target (h x) (ident (h (ops ! (k + 1)))))"
    (is "?A \<longleftrightarrow> ?B")
proof
  have k: "k + 1 < length ops" and lab: "opcode (h (ops ! (k + 1))) = OpLabel"
    using rb by (auto simp: pair_at_def)
  {
    assume ?A
    then obtain i where "i < k" "is_target (h (ops ! i)) (ident (h (ops ! (k + 1))))"
      using k by (auto simp: set_kept)
    moreover have "ops ! i \<in> set (take k ops)"
      using \<open>i < k\<close> k by (auto simp: in_set_conv_nth intro!: exI[of _ i])
    ultimately show ?B by blast
  }
  {
    assume ?B
    then obtain i where i: "i < k" and t: "is_target (h (ops ! i)) (ident (h (ops ! (k + 1))))"
      using k by (auto simp: in_set_conv_nth)
    have mem: "ops ! i \<in> set ops" using i k by simp
    have "\<not> pair_at h ops i"
    proof
      assume r: "pair_at h ops i"
      then have "target0 (h (ops ! i)) = Some (ident (h (ops ! (k + 1))))"
        using is_target_single[OF _ _ t] shape mem by (auto simp: pair_at_def)
      then have "ident (h (ops ! (i + 1))) = ident (h (ops ! (k + 1)))"
        using r by (simp add: pair_at_def)
      moreover have "ident (h (ops ! (i + 1))) \<noteq> ident (h (ops ! (k + 1)))"
        using distinct_map_filter_nth[of "\<lambda>p. ident (h p)" "\<lambda>p. opcode (h p) = OpLabel" ops
            "i + 1" "k + 1"] dist i k lab r
        by (simp add: label_ids_def pair_at_def)
      ultimately show False by simp
    qed
    moreover have "\<not> dropped_label h ops i"
    proof
      assume "dropped_label h ops i"
      then have "opcode (h (ops ! i)) = OpLabel"
        by (auto simp: dropped_label_def pair_at_def)
      then have "flow (h (ops ! i)) = None" using shape mem by (auto simp: parsed_flow_def)
      then show False using t by (simp add: is_target_def)
    qed
    ultimately have "stays_at h ops i" by (simp add: stays_at_def)
    then have "ops ! i \<in> set (kept h ops k)" using i k by (auto simp: set_kept)
    then show ?A using t by blast
  }
qed

lemma refd_kept:
  assumes dist: "distinct (label_ids h ops)"
    and shape: "\<forall>p \<in> set ops. parsed_flow (h p)"
    and rb: "pair_at h ops k"
  shows "refd h (kept h ops k @ drop k ops) (length (kept h ops k)) (ident (h (ops ! (k + 1))))
     \<longleftrightarrow> refd h ops k (ident (h (ops ! (k + 1))))"
proof -
  have k: "k + 1 < length ops" using rb by (auto simp: pair_at_def)
  have d: "drop k ops = ops ! k # drop (Suc k) ops"
    using k by (simp add: Cons_nth_drop_Suc)
  have "refd h (kept h ops k @ drop k ops) (length (kept h ops k)) (ident (h (ops ! (k + 1))))
    \<longleftrightarrow> (\<exists>x \<in> set (kept h ops k) \<union> set (drop (Suc k) ops).
           is_target (h x) (ident (h (ops ! (k + 1)))))"
    using k by (subst refd_iff) (simp_all add: d)
  also have "\<dots> \<longleftrightarrow> (\<exists>x \<in> set (take k ops) \<union> set (drop (Suc k) ops).
           is_target (h x) (ident (h (ops ! (k + 1)))))"
    using kept_refs[OF dist shape rb] by blast
  also have "\<dots> \<longleftrightarrow> refd h ops k (ident (h (ops ! (k + 1))))"
    using k by (subst refd_iff) simp_all
  finally show ?thesis .
qed

text \<open>The loop at position \<open>k\<close> of the list it started from: the passed part is
  \<open>kept h ops k\<close>, the rest is untouched, and the loop ends with all of \<open>kept\<close>.\<close>

lemma sweep_kept:
  assumes dist: "distinct (label_ids h ops)"
    and shape: "\<forall>p \<in> set ops. parsed_flow (h p)"
  shows "k \<le> length ops \<Longrightarrow> \<not> dropped_label h ops k \<Longrightarrow>
     sweep h (length (kept h ops k)) (kept h ops k @ drop k ops) = swept (kept h ops (length ops))"
proof (induction "length ops - k" arbitrary: k rule: less_induct)
  case less
  let ?P = "kept h ops k"
  let ?l = "length ?P"
  let ?cur = "?P @ drop k ops"
  show ?case
  proof (cases "length ops - k \<le> 1")
    case True
    show ?thesis
    proof (cases "k = length ops")
      case True
      then show ?thesis
        by (subst sweep.simps) (auto simp: swept_def size_minus_1_def)
    next
      case False
      then have k: "Suc k = length ops" using True less.prems by simp
      have "\<not> pair_at h ops k" using k by (simp add: pair_at_def)
      then have kp: "kept h ops (length ops) = ?P @ [ops ! k]"
        using less.prems(2) k[symmetric] by (simp add: kept_Suc stays_at_def)
      have d: "drop k ops = [ops ! k]" using k
        by (metis Cons_nth_drop_Suc drop_all lessI order_refl)
      show ?thesis
        by (subst sweep.simps) (simp add: kp d swept_def size_minus_1_def)
    qed
  next
    case False
    then have k2: "Suc (Suc k) \<le> length ops" by simp
    have lt: "?l < size_minus_1 (length ?cur)" using k2 by (simp add: size_minus_1_def)
    have n0: "?cur ! ?l = ops ! k" using k2 by (simp add: nth_append)
    have n1: "?cur ! (?l + 1) = ops ! (k + 1)" using k2 by (simp add: nth_append)
    have b0: "\<not> length ?cur \<le> ?l" "\<not> length ?cur \<le> ?l + 1" using k2 by simp_all
    show ?thesis
    proof (cases "pair_at h ops k")
      case nrb: False
      have kp: "kept h ops (Suc k) = ?P @ [ops ! k]"
        using nrb less.prems(2) by (simp add: kept_Suc stays_at_def)
      have cur: "kept h ops (Suc k) @ drop (Suc k) ops = ?cur"
        using k2 by (simp add: kp Cons_nth_drop_Suc)
      have ndl: "\<not> dropped_label h ops (Suc k)" using nrb by (simp add: dropped_label_def)
      have IH: "sweep h (?l + 1) ?cur = swept (kept h ops (length ops))"
        using less.hyps[of "Suc k"] k2 ndl cur by (simp add: kp)
      have "sweep h ?l ?cur = sweep h (?l + 1) ?cur"
        using lt b0 nrb k2 n0 n1
        by (subst sweep.simps) (auto simp: pair_at_def)
      then show ?thesis using IH by simp
    next
      case rb: True
      then have br: "opcode (h (ops ! k)) = OpBranch" and lb: "opcode (h (ops ! (k + 1))) = OpLabel"
        and tg: "target0 (h (ops ! k)) = Some (ident (h (ops ! (k + 1))))"
        by (auto simp: pair_at_def)
      have kp1: "kept h ops (Suc k) = ?P" using rb by (simp add: kept_Suc stays_at_def)
      have rf: "refd h ?cur ?l (ident (h (ops ! (k + 1)))) = refd h ops k (ident (h (ops ! (k + 1))))"
        by (rule refd_kept[OF dist shape rb])
      have e1: "erase_at ?cur ?l = ?P @ drop (Suc k) ops"
        using k2 by (simp add: erase_at_append_drop)
      have e2: "erase_at (?P @ drop (Suc k) ops) ?l = ?P @ drop (Suc (Suc k)) ops"
        using k2 by (simp add: erase_at_append_drop)
      show ?thesis
      proof (cases "refd h ops k (ident (h (ops ! (k + 1))))")
        case True
        have ndl: "\<not> dropped_label h ops (Suc k)" using True by (simp add: dropped_label_def)
        have IH: "sweep h ?l (?P @ drop (Suc k) ops) = swept (kept h ops (length ops))"
          using less.hyps[of "Suc k"] k2 ndl by (simp add: kp1)
        have "sweep h ?l ?cur = sweep h ?l (erase_at ?cur ?l)"
          using lt b0 br lb tg True rf n0 n1
          by (subst sweep.simps) (simp add: Let_def)
        then show ?thesis using IH e1 by simp
      next
        case False
        have dl: "dropped_label h ops (Suc k)" using False rb by (simp add: dropped_label_def)
        then have kp2: "kept h ops (Suc (Suc k)) = ?P"
          by (simp add: kept_Suc[of _ _ "Suc k"] stays_at_def kp1)
        have "\<not> pair_at h ops (Suc k)" using lb by (simp add: pair_at_def)
        then have ndl: "\<not> dropped_label h ops (Suc (Suc k))" by (simp add: dropped_label_def)
        have IH: "sweep h ?l (?P @ drop (Suc (Suc k)) ops) = swept (kept h ops (length ops))"
          using less.hyps[of "Suc (Suc k)"] k2 ndl by (simp add: kp2)
        have "sweep h ?l ?cur = sweep h ?l (erase_at (erase_at ?cur ?l) ?l)"
          using lt b0 br lb tg False rf n0 n1
          by (subst sweep.simps) (simp add: Let_def)
        then show ?thesis using IH e1 e2 by simp
      qed
    qed
  qed
qed

text \<open>The tests of the loop are those of the specification: the first target of a
  parsed branch is its only target, and the inner loop finds the label exactly when it is
  targeted elsewhere.\<close>

lemma refd_targeted: "refd h ops l L \<longleftrightarrow> targeted_elsewhere h ops l L"
proof -
  have t: "is_target (h p) L \<longleftrightarrow> L \<in> set (flow_targets (h p))" for p
    by (simp add: is_target_def flow_targets_def split: option.splits)
  show ?thesis
    unfolding refd_def targeted_elsewhere_def list_ex_iff t by auto
qed

lemma pair_at_redundant:
  assumes "\<forall>p \<in> set ops. parsed_flow (h p)"
  shows "pair_at h ops i \<longleftrightarrow> redundant_branch h ops i"
proof (cases "i + 1 < length ops \<and> opcode (h (ops ! i)) = OpBranch")
  case False
  then show ?thesis by (auto simp: pair_at_def redundant_branch_def)
next
  case True
  then have "parsed_flow (h (ops ! i))" using assms by simp
  then obtain f t where "flow (h (ops ! i)) = Some f" "targets f = [t]"
    using True by (auto simp: parsed_flow_def length_Suc_conv split: option.splits)
  then show ?thesis
    using True by (auto simp: pair_at_def redundant_branch_def target0_def flow_targets_def)
qed

lemma stays_at_swept_keep:
  assumes "\<forall>p \<in> set ops. parsed_flow (h p)"
  shows "stays_at h ops i \<longleftrightarrow> swept_keep h ops i"
  by (simp add: stays_at_def swept_keep_def dropped_label_def dead_label_def
        pair_at_redundant[OF assms] refd_targeted)

lemma sweep_spec:
  assumes "distinct (label_ids h ops)" "\<forall>p \<in> set ops. parsed_flow (h p)"
  shows "sweep h 0 ops = swept (spec_sweep h ops)"
proof -
  have "stays_at h ops = swept_keep h ops"
    using stays_at_swept_keep[OF assms(2)] by (intro ext)
  then have "kept h ops (length ops) = spec_sweep h ops"
    by (simp add: kept_def spec_sweep_def)
  then show ?thesis
    using sweep_kept[OF assms, of 0] by (simp add: kept_def dropped_label_def)
qed

lemmas example_defs =
  heap_of_def mk_op_def mk_constant_def mk_variable_def mk_block_def mk_flow_def
  new_SPVInstruction_def

lemma sweep_heap_labels: "label_ids sweep_heap [0, 1, 2, 3, 4, 5, 6] = [7, 9, 11]"
  by (simp add: label_ids_def sweep_heap_def example_defs)

lemma sweep_heap_parsed: "list_all (\<lambda>p. parsed_flow (sweep_heap p)) [0, 1, 2, 3, 4, 5, 6]"
  by (simp add: parsed_flow_def sweep_heap_def example_defs)

lemma sweep_heap_swept: "sweep sweep_heap 0 [0, 1, 2, 3, 4, 5, 6] = Inr [2, 3, 5, 6]"
  by (simp add: sweep.simps sweep_heap_def example_defs size_minus_1_def target0_def refd_def
        is_target_def erase_at_def)

text \<open>
  Where every flow-control instruction of the emit list carries its targets (none is an
  \<^verbatim>\<open>OpSwitch\<close>), the sweep removes exactly the redundant branches and the dead labels: in a
  function whose label ids are not repeated and whose flow instructions are as the parser
  builds them, the sweep of an emit list returns \<open>spec_sweep\<close> of it, that is the list
  without every \<open>OpBranch L\<close> that stands right before \<open>OpLabel L\<close> and without every such
  \<open>OpLabel L\<close> that is not targeted elsewhere; a label that is a target elsewhere stays.
  (When nothing is left, the loop bound wraps and the sweep reads \<open>funcops[0]\<close> of an empty
  vector.)
\<close>

lemma sweep_removes_redundant_pairs:
  assumes "distinct (label_ids h funcops)" and "\<forall>p \<in> set funcops. parsed_flow (h p)"
    and "\<forall>p \<in> set funcops. opcode (h p) \<noteq> OpSwitch"
  shows "sweep h 0 funcops =
     (if spec_sweep h funcops = [] then Inl (IndexOutOfRange 0) else Inr (spec_sweep h funcops))"
  using sweep_spec[OF assms(1,2)] by (simp add: swept_def)

lemma sweep_heap_spec: "spec_sweep sweep_heap [0, 1, 2, 3, 4, 5, 6] = [2, 3, 5, 6]"
proof -
  have d: "distinct (label_ids sweep_heap [0, 1, 2, 3, 4, 5, 6])"
    unfolding sweep_heap_labels by simp
  have p: "\<forall>p \<in> set [0, 1, 2, 3, 4, 5, 6]. parsed_flow (sweep_heap p)"
    using sweep_heap_parsed by (simp only: list_all_iff)
  have s: "\<forall>p \<in> set [0, 1, 2, 3, 4, 5, 6]. opcode (sweep_heap p) \<noteq> OpSwitch"
    by (simp add: sweep_heap_def example_defs)
  show ?thesis
    using sweep_removes_redundant_pairs[OF d p s] sweep_heap_swept
    by (auto split: if_splits)
qed


section \<open>The purity predicate\<close>

lemma stored_between_ex:
  "stored_between h L v frm to \<longleftrightarrow>
     (\<exists>i k j. i < k \<and> k < j \<and> j < length L \<and> L ! i = frm \<and> L ! j = to \<and> is_store_to h v (L ! k))"
proof -
  have "stored_between h L v frm to \<longleftrightarrow>
     (\<exists>j < length L. L ! j = to \<and> (\<exists>k < j. is_store_to h v (L ! k) \<and> (\<exists>i < k. L ! i = frm)))"
    by (simp add: stored_between_def list_ex_iff Bex_def)
  also have "\<dots> \<longleftrightarrow> (\<exists>i k j. i < k \<and> k < j \<and> j < length L \<and> L ! i = frm \<and> L ! j = to
      \<and> is_store_to h v (L ! k))"
    by blast
  finally show ?thesis .
qed

lemma scan_instructions_append:
  "scan_instructions h frm to v lk (xs @ ys) =
     (case scan_instructions h frm to v lk xs of
        Modified \<Rightarrow> Modified | Done \<Rightarrow> Done
      | Looking lk' \<Rightarrow> scan_instructions h frm to v lk' ys)"
  by (induction xs arbitrary: lk) auto

text \<open>The two nested loops are one scan of the linear order.\<close>

lemma scan_blocks_concat:
  "scan_blocks h frm to v lk bs =
     (scan_instructions h frm to v lk (concat (map (\<lambda>b. block_instructions (h b)) bs)) \<noteq> Modified)"
proof (induction bs arbitrary: lk)
  case Nil
  then show ?case by simp
next
  case (Cons b bs)
  then show ?case
    by (cases "scan_instructions h frm to v lk (block_instructions (h b))")
       (simp_all add: scan_instructions_append)
qed

text \<open>The scan answers \<^verbatim>\<open>false\<close> exactly at a store to \<open>v\<close> that comes before the first
  \<open>to\<close> and, unless the scan is already looking, after some \<open>frm\<close>.\<close>

lemma scan_instructions_Modified:
  assumes "frm \<noteq> to"
  shows "scan_instructions h frm to v lk L = Modified \<longleftrightarrow>
     (\<exists>pre s post. L = pre @ s # post \<and> is_store_to h v s \<and> s \<noteq> frm \<and> s \<noteq> to
        \<and> to \<notin> set pre \<and> (lk \<or> frm \<in> set pre))"
proof (induction L arbitrary: lk)
  case Nil
  then show ?case by simp
next
  case (Cons x xs)
  show ?case
  proof (cases "x = frm")
    case True
    have "(\<exists>pre s post. x # xs = pre @ s # post \<and> is_store_to h v s \<and> s \<noteq> frm \<and> s \<noteq> to
        \<and> to \<notin> set pre \<and> (lk \<or> frm \<in> set pre))
      \<longleftrightarrow> (\<exists>pre s post. xs = pre @ s # post \<and> is_store_to h v s \<and> s \<noteq> frm \<and> s \<noteq> to
        \<and> to \<notin> set pre)"
      (is "?A \<longleftrightarrow> ?B")
    proof
      assume ?A
      then obtain pre s post where p: "x # xs = pre @ s # post" "is_store_to h v s" "s \<noteq> frm"
        "s \<noteq> to" "to \<notin> set pre" by blast
      then obtain pre' where "pre = x # pre'" using True by (cases pre) auto
      then show ?B using p by auto
    next
      assume ?B
      then obtain pre s post where p: "xs = pre @ s # post" "is_store_to h v s" "s \<noteq> frm"
        "s \<noteq> to" "to \<notin> set pre" by blast
      then have "x # xs = (x # pre) @ s # post \<and> is_store_to h v s \<and> s \<noteq> frm \<and> s \<noteq> to
        \<and> to \<notin> set (x # pre) \<and> (lk \<or> frm \<in> set (x # pre))"
        using True assms by auto
      then show ?A by blast
    qed
    then show ?thesis using True Cons.IH[of True] by simp
  next
    case nf: False
    show ?thesis
    proof (cases "x = to")
      case True
      have "\<not> (\<exists>pre s post. x # xs = pre @ s # post \<and> is_store_to h v s \<and> s \<noteq> frm \<and> s \<noteq> to
        \<and> to \<notin> set pre \<and> (lk \<or> frm \<in> set pre))"
      proof
        assume "\<exists>pre s post. x # xs = pre @ s # post \<and> is_store_to h v s \<and> s \<noteq> frm \<and> s \<noteq> to
          \<and> to \<notin> set pre \<and> (lk \<or> frm \<in> set pre)"
        then obtain pre s post where p: "x # xs = pre @ s # post" "s \<noteq> to" "to \<notin> set pre"
          by blast
        then show False using True by (cases pre) auto
      qed
      then show ?thesis using True nf by simp
    next
      case nt: False
      show ?thesis
      proof (cases "lk \<and> is_store_to h v x")
        case True
        then have "x # xs = [] @ x # xs \<and> is_store_to h v x \<and> x \<noteq> frm \<and> x \<noteq> to
          \<and> to \<notin> set [] \<and> (lk \<or> frm \<in> set [])" using nf nt by simp
        then have "\<exists>pre s post. x # xs = pre @ s # post \<and> is_store_to h v s \<and> s \<noteq> frm \<and> s \<noteq> to
          \<and> to \<notin> set pre \<and> (lk \<or> frm \<in> set pre)" by blast
        then show ?thesis using True nf nt by (simp add: is_store_to_def)
      next
        case ns: False
        have "(\<exists>pre s post. x # xs = pre @ s # post \<and> is_store_to h v s \<and> s \<noteq> frm \<and> s \<noteq> to
            \<and> to \<notin> set pre \<and> (lk \<or> frm \<in> set pre))
          \<longleftrightarrow> (\<exists>pre s post. xs = pre @ s # post \<and> is_store_to h v s \<and> s \<noteq> frm \<and> s \<noteq> to
            \<and> to \<notin> set pre \<and> (lk \<or> frm \<in> set pre))"
          (is "?A \<longleftrightarrow> ?B")
        proof
          assume ?A
          then obtain pre s post where p: "x # xs = pre @ s # post" "is_store_to h v s"
            "s \<noteq> frm" "s \<noteq> to" "to \<notin> set pre" "lk \<or> frm \<in> set pre" by blast
          then obtain pre' where "pre = x # pre'" using ns by (cases pre) auto
          then show ?B using p nf by auto
        next
          assume ?B
          then obtain pre s post where p: "xs = pre @ s # post" "is_store_to h v s"
            "s \<noteq> frm" "s \<noteq> to" "to \<notin> set pre" "lk \<or> frm \<in> set pre" by blast
          then have "x # xs = (x # pre) @ s # post \<and> is_store_to h v s \<and> s \<noteq> frm \<and> s \<noteq> to
            \<and> to \<notin> set (x # pre) \<and> (lk \<or> frm \<in> set (x # pre))"
            using nt by auto
          then show ?A by blast
        qed
        then show ?thesis using ns nf nt Cons.IH[of lk] by (auto simp: is_store_to_def)
      qed
    qed
  qed
qed

lemma stored_between_iff:
  assumes d: "distinct L" and t: "to \<in> set L"
  shows "(\<exists>pre s post. L = pre @ s # post \<and> is_store_to h v s \<and> s \<noteq> frm \<and> s \<noteq> to
            \<and> to \<notin> set pre \<and> frm \<in> set pre)
     \<longleftrightarrow> stored_between h L v frm to" (is "?A \<longleftrightarrow> ?B")
proof
  assume ?A
  then obtain pre s post where p: "L = pre @ s # post" "is_store_to h v s" "s \<noteq> to"
    "to \<notin> set pre" "frm \<in> set pre" by blast
  from p(5) obtain i where i: "i < length pre" "pre ! i = frm" by (auto simp: in_set_conv_nth)
  from t p(1,3,4) have "to \<in> set post" by auto
  then obtain j where j: "j < length post" "post ! j = to" by (auto simp: in_set_conv_nth)
  have "i < length pre \<and> length pre < length pre + 1 + j \<and> length pre + 1 + j < length L
     \<and> L ! i = frm \<and> L ! (length pre + 1 + j) = to \<and> is_store_to h v (L ! length pre)"
    using i j p(1,2) by (auto simp: nth_append)
  then show ?B unfolding stored_between_ex by blast
next
  assume ?B
  then obtain i k j where x: "i < k" "k < j" "j < length L" "L ! i = frm" "L ! j = to"
    "is_store_to h v (L ! k)" unfolding stored_between_ex by blast
  have L: "L = take k L @ L ! k # drop (Suc k) L" using x by (simp add: id_take_nth_drop)
  have 1: "frm \<in> set (take k L)" using x by (auto simp: in_set_conv_nth intro!: exI[of _ i])
  have 2: "to \<notin> set (take k L)"
  proof
    assume "to \<in> set (take k L)"
    then obtain m where "m < k" "L ! m = to" using x by (auto simp: in_set_conv_nth)
    then show False using d x by (auto simp: distinct_conv_nth)
  qed
  have 3: "L ! k \<noteq> to" "L ! k \<noteq> frm" using d x by (auto simp: distinct_conv_nth)
  show ?A using L 1 2 3 x(6) by blast
qed

lemma and_all_map_None: "and_all (map f xs) = None \<longleftrightarrow> (\<exists>a \<in> set xs. f a = None)"
  by (induction xs) (auto split: option.splits)

lemma and_all_map_True:
  "and_all (map f xs) = Some True \<longleftrightarrow> (\<forall>a \<in> set xs. f a = Some True)"
  by (induction xs) (auto split: option.splits)

lemma arg_at_0: "arg_at i 0 = (case arguments_of i of [] \<Rightarrow> None | a # _ \<Rightarrow> Some a)"
  by (simp add: arg_at_def split: list.splits)

lemma IsUnmodified_load:
  assumes "op (h frm) \<noteq> None" "loads_variable h frm v" "distinct (linear h func)"
    "to \<in> set (linear h func)" "frm \<noteq> to"
  shows "IsUnmodified (Suc n) h func frm to
     = Some (\<not> stored_between h (linear h func) v frm to)"
proof -
  from assms(1) obtain fop where fop: "op (h frm) = Some fop" by auto
  from assms(2) have ld: "opcode (h frm) = OpLoad" "arg_at (h frm) 0 = Some v" "var (h v) \<noteq> None"
    by (auto simp: loads_variable_def)
  from ld(2) fop obtain rest where args: "arguments fop = v # rest"
    by (auto simp: arg_at_0 arguments_of_def split: list.splits)
  have "IsUnmodified (Suc n) h func frm to = Some (scan_blocks h frm to v False (blocks func))"
    using fop ld args by simp
  also have "scan_blocks h frm to v False (blocks func)
      = (scan_instructions h frm to v False (linear h func) \<noteq> Modified)"
    by (simp add: scan_blocks_concat linear_def)
  also have "\<dots> = (\<not> stored_between h (linear h func) v frm to)"
  proof -
    have "scan_instructions h frm to v False (linear h func) = Modified
      \<longleftrightarrow> (\<exists>pre s post. linear h func = pre @ s # post \<and> is_store_to h v s \<and> s \<noteq> frm \<and> s \<noteq> to
            \<and> to \<notin> set pre \<and> frm \<in> set pre)"
      using assms(5) by (subst scan_instructions_Modified) auto
    then show ?thesis using stored_between_iff[of "linear h func" to h v frm] assms(3,4) by simp
  qed
  finally show ?thesis .
qed

lemma IsUnmodified_other:
  assumes "op (h frm) \<noteq> None" "\<not> (\<exists>w. loads_variable h frm w)"
  shows "IsUnmodified (Suc n) h func frm to
     = and_all (map (\<lambda>a. IsUnmodified n h func a to) (visited_operands (h frm)))"
proof -
  from assms(1) obtain fop where fop: "op (h frm) = Some fop" by auto
  have nl: "(if opcode (h frm) = OpLoad
                 then (case arguments fop of [] \<Rightarrow> None
                       | a0 # _ \<Rightarrow> (if var (h a0) \<noteq> None then Some a0 else None))
                 else None) = None"
    using assms(2) fop
    by (auto simp: loads_variable_def arg_at_0 arguments_of_def split: list.splits)
  show ?thesis using fop nl by (simp add: visited_operands_def arguments_of_def)
qed

text \<open>The recursion returns when the operand graph has no cycle: with a rank that falls
  from every operation to its operands, depth \<open>rank frm + 1\<close> is enough. More depth does
  not change an answer.\<close>

lemma IsUnmodified_returns:
  assumes "\<forall>p. \<forall>a \<in> set (arguments_of (h p)). rank a < (rank p :: nat)"
  shows "rank frm < n \<Longrightarrow> IsUnmodified n h func frm to \<noteq> None"
proof (induction n arbitrary: frm)
  case 0
  then show ?case by simp
next
  case (Suc n)
  show ?case
  proof (cases "op (h frm)")
    case None
    then show ?thesis by simp
  next
    case (Some fop)
    have sub: "\<forall>a \<in> set (arguments fop). IsUnmodified n h func a to \<noteq> None"
    proof
      fix a assume "a \<in> set (arguments fop)"
      then have "rank a < rank frm" using assms Some by (auto simp: arguments_of_def)
      then show "IsUnmodified n h func a to \<noteq> None" using Suc.prems by (intro Suc.IH) simp
    qed
    have "and_all (map (\<lambda>a. IsUnmodified n h func a to)
             (if opcode (h frm) = OpStore then drop 1 (arguments fop) else arguments fop)) \<noteq> None"
      using sub by (auto simp: and_all_map_None dest: in_set_dropD)
    then show ?thesis using Some by (auto split: option.splits)
  qed
qed

lemma and_all_map_mono:
  "(\<And>a c. a \<in> set xs \<Longrightarrow> f a = Some c \<Longrightarrow> g a = Some c)
   \<Longrightarrow> and_all (map f xs) = Some b \<Longrightarrow> and_all (map g xs) = Some b"
proof (induction xs arbitrary: b)
  case Nil
  then show ?case by simp
next
  case (Cons x xs)
  from Cons.prems(2) obtain bx bs where x: "f x = Some bx" and s: "and_all (map f xs) = Some bs"
    and b: "b = (bx \<and> bs)" by (auto split: option.splits)
  have "g x = Some bx" using Cons.prems(1) x by simp
  moreover have "and_all (map g xs) = Some bs" using Cons.IH Cons.prems(1) s by simp
  ultimately show ?case using b by simp
qed

lemma IsUnmodified_more_fuel:
  "IsUnmodified n h func frm to = Some b \<Longrightarrow> IsUnmodified (n + k) h func frm to = Some b"
proof (induction n arbitrary: frm b)
  case 0
  then show ?case by simp
next
  case (Suc n)
  show ?case
  proof (cases "op (h frm)")
    case None
    then show ?thesis using Suc.prems by simp
  next
    case fop: (Some fop)
    define lv where "lv = (if opcode (h frm) = OpLoad
                 then (case arguments fop of [] \<Rightarrow> None
                       | a0 # _ \<Rightarrow> (if var (h a0) \<noteq> None then Some a0 else None))
                 else None)"
    let ?as = "if opcode (h frm) = OpStore then drop 1 (arguments fop) else arguments fop"
    show ?thesis
    proof (cases lv)
      case None
      have e1: "IsUnmodified (Suc n) h func frm to
          = and_all (map (\<lambda>a. IsUnmodified n h func a to) ?as)"
        using fop None by (simp add: lv_def)
      have e2: "IsUnmodified (Suc n + k) h func frm to
          = and_all (map (\<lambda>a. IsUnmodified (n + k) h func a to) ?as)"
        using fop None by (simp add: lv_def)
      have "and_all (map (\<lambda>a. IsUnmodified (n + k) h func a to) ?as) = Some b"
        by (rule and_all_map_mono[where f = "\<lambda>a. IsUnmodified n h func a to"])
           (use Suc.IH Suc.prems e1 in auto)
      then show ?thesis using e2 by simp
    next
      case (Some v)
      then show ?thesis using Suc.prems fop by (simp add: lv_def)
    qed
  qed
qed

text \<open>
  C5. \<^verbatim>\<open>IsUnmodified(from, to)\<close> is true for an instruction that is no operation. For a
  load of a variable \<open>v\<close> it is true exactly when no store to \<open>v\<close> stands strictly between
  \<open>from\<close> and \<open>to\<close> in the linear order of the function's blocks (each instruction stands
  in one place of that order, \<open>to\<close> is one of them and is not \<open>from\<close>). For any other
  operation it is true exactly when it is true of every operand, the destination of a
  store left out; the recursion runs out of depth only if it does so on an operand, and
  it returns whenever the operand graph has no cycle.
\<close>

theorem IsUnmodified_cases:
  "(op (h frm) = None \<longrightarrow> IsUnmodified (Suc n) h func frm to = Some True)
   \<and> (op (h frm) \<noteq> None \<and> loads_variable h frm v \<and> distinct (linear h func)
        \<and> to \<in> set (linear h func) \<and> frm \<noteq> to \<longrightarrow>
      IsUnmodified (Suc n) h func frm to = Some (\<not> stored_between h (linear h func) v frm to))
   \<and> (op (h frm) \<noteq> None \<and> \<not> (\<exists>w. loads_variable h frm w) \<longrightarrow>
      (IsUnmodified (Suc n) h func frm to = Some True
         \<longleftrightarrow> (\<forall>a \<in> set (visited_operands (h frm)). IsUnmodified n h func a to = Some True))
      \<and> (IsUnmodified (Suc n) h func frm to = None
         \<longleftrightarrow> (\<exists>a \<in> set (visited_operands (h frm)). IsUnmodified n h func a to = None)))
   \<and> ((\<forall>p. \<forall>a \<in> set (arguments_of (h p)). rank a < rank p) \<longrightarrow>
        IsUnmodified (Suc (rank frm)) h func frm to \<noteq> None)"
  using IsUnmodified_load[of h frm v func to n] IsUnmodified_other[of h frm n func to]
    IsUnmodified_returns[of h rank frm "Suc (rank frm)" func to]
  by (simp add: and_all_map_True and_all_map_None)

lemma reload_linear: "linear reload_heap reload_func = [2, 3, 4]"
  by (simp add: linear_def reload_func_def reload_heap_def block_instructions_def example_defs)

lemma reload_ranked: "a \<in> set (arguments_of (reload_heap p)) \<Longrightarrow> a < p"
proof -
  assume a: "a \<in> set (arguments_of (reload_heap p))"
  then have "p < 7"
    by (cases "p < 7") (auto simp: reload_heap_def arguments_of_def example_defs)
  then have "p = 0 \<or> p = 1 \<or> p = 2 \<or> p = 3 \<or> p = 4 \<or> p = 5 \<or> p = 6" by arith
  then show ?thesis using a
    by (auto simp: reload_heap_def arguments_of_def example_defs)
qed

theorem IsUnmodified_cases_witness:
  "IsUnmodified (Suc 0) reload_heap reload_func 0 4 = Some True
   \<and> loads_variable reload_heap 2 1
   \<and> stored_between reload_heap (linear reload_heap reload_func) 1 2 4
   \<and> IsUnmodified (Suc 0) reload_heap reload_func 2 4 = Some False
   \<and> visited_operands (reload_heap 3) = [0]
   \<and> IsUnmodified (Suc (Suc 0)) reload_heap reload_func 3 4 = Some True
   \<and> IsUnmodified (Suc (Suc 0)) reload_heap reload_func 4 4 = Some False"
proof -
  have lv: "loads_variable reload_heap 2 1"
    by (simp add: loads_variable_def arg_at_def arguments_of_def reload_heap_def example_defs)
  have nlv: "\<not> (\<exists>w. loads_variable reload_heap 3 w)" "\<not> (\<exists>w. loads_variable reload_heap 4 w)"
    by (simp_all add: loads_variable_def reload_heap_def example_defs)
  have ops: "op (reload_heap 0) = None" "op (reload_heap 2) \<noteq> None" "op (reload_heap 3) \<noteq> None"
    "op (reload_heap 4) \<noteq> None"
    by (simp_all add: reload_heap_def example_defs)
  have vo: "visited_operands (reload_heap 3) = [0]" "visited_operands (reload_heap 4) = [2]"
    by (simp_all add: visited_operands_def arguments_of_def reload_heap_def example_defs)
  have sb: "stored_between reload_heap (linear reload_heap reload_func) 1 2 4"
    unfolding reload_linear
    by (simp add: stored_between_def is_store_to_def arg_at_def arguments_of_def
          reload_heap_def example_defs)
  have c0: "IsUnmodified (Suc 0) reload_heap reload_func 0 4 = Some True"
    using IsUnmodified_cases[of reload_heap 0 0 reload_func 4 1 id] ops by simp
  have c2: "IsUnmodified (Suc 0) reload_heap reload_func 2 4 = Some False"
    using IsUnmodified_cases[of reload_heap 2 0 reload_func 4 1 id] ops lv sb
    by (simp add: reload_linear)
  have c3: "IsUnmodified (Suc (Suc 0)) reload_heap reload_func 3 4 = Some True"
    using IsUnmodified_cases[of reload_heap 3 "Suc 0" reload_func 4 1 id] ops nlv vo c0 by simp
  have r4: "IsUnmodified (Suc (id 4)) reload_heap reload_func 4 4 \<noteq> None"
    using IsUnmodified_cases[of reload_heap 4 "Suc 0" reload_func 4 1 id] reload_ranked by simp
  have n4: "IsUnmodified (Suc (Suc 0)) reload_heap reload_func 4 4 \<noteq> Some True"
    using IsUnmodified_cases[of reload_heap 4 "Suc 0" reload_func 4 1 id] ops nlv vo c2 by simp
  have n4': "IsUnmodified (Suc (Suc 0)) reload_heap reload_func 4 4 \<noteq> None"
    using IsUnmodified_cases[of reload_heap 4 "Suc 0" reload_func 4 1 id] ops nlv vo c2 by simp
  then have c4: "IsUnmodified (Suc (Suc 0)) reload_heap reload_func 4 4 = Some False"
    using n4 by (cases "IsUnmodified (Suc (Suc 0)) reload_heap reload_func 4 4") auto
  show ?thesis using c0 lv sb c2 vo c3 c4 r4 by simp
qed


section \<open>Argument inlining\<close>

lemma bit_or_exp: "bit (w OR 2 ^ a :: 32 word) k \<longleftrightarrow> bit w k \<or> (k = a \<and> a < 32)"
  by (auto simp: bit_or_iff bit_exp_iff possible_bit_word)

text \<open>A bit that the loop sets belongs to one of its positions, and the operand there
  passed the gates.\<close>

lemma inline_args_bit:
  "inline_args fuel h func instr a args (fops, bits, mc) = Inr (fops', bits', mc')
   \<Longrightarrow> bit bits' k \<Longrightarrow> \<not> bit bits k
   \<Longrightarrow> a \<le> k \<and> k < a + length args \<and> passes_gates h instr (args ! (k - a))"
proof (induction args arbitrary: a fops bits mc)
  case Nil
  then show ?case by simp
next
  case (Cons arg rest)
  have step: "\<And>fops1 bits1 mc1.
      inline_args fuel h func instr (a + 1) rest (fops1, bits1, mc1) = Inr (fops', bits', mc')
      \<Longrightarrow> (bit bits1 k \<longrightarrow> bit bits k \<or> (k = a \<and> passes_gates h instr arg))
      \<Longrightarrow> a \<le> k \<and> k < a + length (arg # rest) \<and> passes_gates h instr ((arg # rest) ! (k - a))"
  proof -
    fix fops1 bits1 mc1
    assume r: "inline_args fuel h func instr (a + 1) rest (fops1, bits1, mc1) = Inr (fops', bits', mc')"
      and b: "bit bits1 k \<longrightarrow> bit bits k \<or> (k = a \<and> passes_gates h instr arg)"
    show "a \<le> k \<and> k < a + length (arg # rest) \<and> passes_gates h instr ((arg # rest) ! (k - a))"
    proof (cases "bit bits1 k")
      case True
      then show ?thesis using b Cons.prems(3) by simp
    next
      case False
      from Cons.IH[OF r Cons.prems(2) False]
      have "a + 1 \<le> k" "k < a + 1 + length rest" "passes_gates h instr (rest ! (k - (a + 1)))"
        by auto
      moreover have "(arg # rest) ! (k - a) = rest ! (k - (a + 1))"
        using \<open>a + 1 \<le> k\<close> by (simp add: nth_Cons')
      ultimately show ?thesis by simp
    qed
  qed
  show ?case
  proof (cases "op (h arg)")
    case None
    then have "inline_args fuel h func instr (a + 1) rest
        (erase_item fops arg, bits OR push_bit a 1, mc) = Inr (fops', bits', mc')"
      using Cons.prems(1) by (simp split: if_splits)
    then show ?thesis
      by (rule step) (auto simp: bit_or_exp passes_gates_def None)
  next
    case (Some aop)
    show ?thesis
    proof (cases "passes_gates h instr arg")
      case False
      then have "inline_args fuel h func instr (a + 1) rest (fops, bits, mc) = Inr (fops', bits', mc')"
        using Cons.prems(1) Some
        by (auto simp: passes_gates_def NO_INLINE_COMPLEXITY_def Let_def split: if_splits)
      then show ?thesis by (rule step) simp
    next
      case True
      then have g: "\<not> (complexity aop \<ge> (if opcode (h instr) = OpCompositeConstruct
                     then min 2 NO_INLINE_COMPLEXITY else NO_INLINE_COMPLEXITY) \<or>
              (length (arguments aop) > 2 \<and> opcode (h arg) \<noteq> OpAccessChain \<and>
               opcode (h arg) \<noteq> OpSelect \<and> opcode (h arg) \<noteq> OpCompositeConstruct))"
        using Some by (auto simp: passes_gates_def NO_INLINE_COMPLEXITY_def)
      from Cons.prems(1) Some g
      consider
          (skip) "inline_args fuel h func instr (a + 1) rest (fops, bits, mc) = Inr (fops', bits', mc')"
        | (fold) "inline_args fuel h func instr (a + 1) rest
            (erase_item fops arg, bits OR push_bit a 1, max (complexity aop) mc) = Inr (fops', bits', mc')"
        by (simp add: Let_def split: if_splits option.splits bool.splits)
      then show ?thesis
      proof cases
        case skip
        then show ?thesis by (rule step) simp
      next
        case fold
        then show ?thesis by (rule step) (auto simp: bit_or_exp True)
      qed
    qed
  qed
qed

lemma inline_args_bit_below:
  "inline_args fuel h func instr a args (fops, bits, mc) = Inr (fops', bits', mc')
   \<Longrightarrow> k < a \<Longrightarrow> bit bits' k = bit bits k"
proof (induction args arbitrary: a fops bits mc)
  case Nil
  then show ?case by simp
next
  case (Cons arg rest)
  from Cons.prems(1)
  consider
      (skip) "inline_args fuel h func instr (a + 1) rest (fops, bits, mc) = Inr (fops', bits', mc')"
    | (fold) mc1 where "inline_args fuel h func instr (a + 1) rest
            (erase_item fops arg, bits OR push_bit a 1, mc1) = Inr (fops', bits', mc')"
    by (simp add: Let_def split: if_splits option.splits bool.splits)
  then show ?case
  proof cases
    case skip
    then show ?thesis using Cons.IH[OF skip] Cons.prems(2) by simp
  next
    case fold
    then show ?thesis using Cons.IH[OF fold] Cons.prems(2) by (simp add: bit_or_exp)
  qed
qed

lemma inlineArgs_of_fold_arguments:
  assumes "fold_arguments fuel func instr st = Inr st'" "op (st_heap st instr) \<noteq> None"
  shows "\<exists>fops mc. inline_args fuel (st_heap st) func instr 0 (arguments_of (st_heap st instr))
            (st_funcops st, inlineArgs_of (st_heap st instr), 0)
           = Inr (fops, inlineArgs_of (st_heap st' instr), mc)"
  using assms
  by (auto simp: fold_arguments_def Let_def upd_op_def inlineArgs_of_def
           split: sum.splits prod.splits)

lemma annotations_Inr:
  "annotations ps r = Inr xs \<Longrightarrow>
     \<exists>st. r = Inr st \<and> xs = map (\<lambda>p. (complexity_of (st_heap st p), inlineArgs_of (st_heap st p))) ps"
  by (cases r) (auto simp: annotations_def)

text \<open>
  Where the argument loop over an operation \<open>instr\<close> returns, that is where no shift is
  undefined, an operand at position \<open>a\<close> that is itself an operation is folded (bit \<open>a\<close>
  of \<open>inlineArgs\<close> becomes set) only if its complexity is below 3, below 2 when \<open>instr\<close> is a
  composite construct, and it has at most two arguments or is an access chain, a select
  or a composite construct.
\<close>

lemma fold_only_simple_operands:
  assumes "fold_arguments fuel func instr st = Inr st'"
    and "a < length (arguments_of (st_heap st instr))"
    and "op (st_heap st (arguments_of (st_heap st instr) ! a)) = Some aop"
    and "\<not> bit (inlineArgs_of (st_heap st instr)) a"
    and "bit (inlineArgs_of (st_heap st' instr)) a"
  shows "complexity aop < (if opcode (st_heap st instr) = OpCompositeConstruct then 2 else 3)
     \<and> (length (arguments aop) \<le> 2
        \<or> opcode (st_heap st (arguments_of (st_heap st instr) ! a)) = OpAccessChain
        \<or> opcode (st_heap st (arguments_of (st_heap st instr) ! a)) = OpSelect
        \<or> opcode (st_heap st (arguments_of (st_heap st instr) ! a)) = OpCompositeConstruct)"
proof -
  have "op (st_heap st instr) \<noteq> None"
    using assms(2) by (auto simp: arguments_of_def split: option.splits)
  from inlineArgs_of_fold_arguments[OF assms(1) this] obtain fops mc where
    "inline_args fuel (st_heap st) func instr 0 (arguments_of (st_heap st instr))
            (st_funcops st, inlineArgs_of (st_heap st instr), 0)
           = Inr (fops, inlineArgs_of (st_heap st' instr), mc)" by blast
  from inline_args_bit[OF this assms(5,4)]
  have "passes_gates (st_heap st) instr (arguments_of (st_heap st instr) ! a)" by simp
  then show ?thesis using assms(3) by (simp add: passes_gates_def)
qed

lemma fold_only_simple_operands_example:
  "arguments_of (negate_heap 3) = [2]
   \<and> annotations [2] (Inr \<lparr>st_heap = negate_heap, st_funcops = [], st_vars = [], st_ignore = {}\<rparr>)
       = Inr [(0, 0)]
   \<and> length (arguments_of (negate_heap 2)) = 1
   \<and> annotations [3] (fold_arguments 2 negate_func 3
        \<lparr>st_heap = negate_heap, st_funcops = [2, 3], st_vars = [1], st_ignore = {}\<rparr>)
       = Inr [(1, 1)]"
proof -
  let ?st = "\<lparr>st_heap = negate_heap, st_funcops = [2, 3], st_vars = [1], st_ignore = {}\<rparr>"
  have a: "annotations [3] (fold_arguments 2 negate_func 3 ?st) = Inr [(1, 1)]"
    by code_simp
  then obtain st' where r: "fold_arguments 2 negate_func 3 ?st = Inr st'"
    and b: "inlineArgs_of (st_heap st' 3) = 1"
    by (auto dest: annotations_Inr)
  have args: "arguments_of (negate_heap 3) = [2]"
    by (simp add: arguments_of_def negate_heap_def example_defs)
  have aop: "op (negate_heap 2) = Some \<lparr>complexity = 0, inlineArgs = 0, arguments = [0]\<rparr>"
    by (simp add: negate_heap_def example_defs)
  have nb: "\<not> bit (inlineArgs_of (negate_heap 3)) 0"
    by (simp add: inlineArgs_of_def negate_heap_def example_defs)
  from fold_only_simple_operands[OF r, of 0] args aop nb b
  show ?thesis using a by (simp add: annotations_def complexity_of_def inlineArgs_of_def arguments_of_def)
qed

text \<open>The destination of a store: the first step of the loop asks nothing of
  \<^verbatim>\<open>IsUnmodified\<close>, and the later steps leave bit 0 alone.\<close>

text \<open>
  C3 fails on the code for an operation of more than 32 operands. \<open>inlineArgs\<close> has 32
  bits and the loop sets bit \<open>a\<close> with \<^verbatim>\<open>1<<a\<close> for every position \<open>a\<close>. In \<open>wide_func\<close> a
  composite construct has 33 operands; operand 0 is an operation of three arguments, which
  fails the arity gate, and the loop leaves its bit clear through position 31
  (\<open>inlineArgs = 0xFFFFFFFE\<close>). Operand 32 is a constant, so the loop evaluates
  \<^verbatim>\<open>1<<32\<close>, which is undefined; a shift that wraps the count sets bit 0, and operand 0
  is then rendered as folded without having passed the gates.
\<close>

theorem fold_wide_construct_undefined:
  "opcode (wide_heap 2) = OpCompositeConstruct
   \<and> length (arguments_of (wide_heap 2)) = 33
   \<and> arg_at (wide_heap 2) 0 = Some 1
   \<and> passes_gates wide_heap 2 1 = False
   \<and> map_sum id (\<lambda>r. fst (snd r))
         (inline_args 1 wide_heap wide_func 2 0 (take 32 (arguments_of (wide_heap 2)))
            ([1, 2], 0, 0)) = Inr 0xFFFFFFFE
   \<and> emitted (fold_arguments 1 wide_func 2
         \<lparr>st_heap = wide_heap, st_funcops = [1, 2], st_vars = [], st_ignore = {}\<rparr>)
       = Inl (ShiftOutOfRange 32)
   \<and> emitted (inline_function 1 [] wide_heap wide_func) = Inl (ShiftOutOfRange 32)"
  by code_simp

lemma inline_args_store_dest:
  assumes r: "inline_args fuel h func instr 0 (dst # rest) (fops, bits, mc) = Inr (fops', bits', mc')"
    and st: "opcode (h instr) = OpStore" and nb: "\<not> bit bits 0"
  shows "bit bits' 0 \<longleftrightarrow> passes_gates h instr dst"
proof (cases "passes_gates h instr dst")
  case True
  then obtain mc1 where "inline_args fuel h func instr 1 rest
      (erase_item fops dst, bits OR 1, mc1) = Inr (fops', bits', mc')"
    using r st by (auto simp: passes_gates_def NO_INLINE_COMPLEXITY_def Let_def
        split: option.splits if_splits)
  from inline_args_bit_below[OF this, of 0] show ?thesis using True by (simp add: bit_or_iff)
next
  case False
  then have "inline_args fuel h func instr 1 rest (fops, bits, mc) = Inr (fops', bits', mc')"
    using r st by (auto simp: passes_gates_def NO_INLINE_COMPLEXITY_def Let_def
        split: option.splits if_splits)
  from inline_args_bit_below[OF this, of 0] show ?thesis using False nb by simp
qed

lemma merge_single_store_other:
  "opcode (st_heap st instr) \<noteq> OpLoad \<Longrightarrow> merge_single_store fuel func instr st = Inr st"
  by (simp add: merge_single_store_def)

lemma opcode_fold_arguments:
  "fold_arguments fuel func instr st = Inr st' \<Longrightarrow> opcode (st_heap st' p) = opcode (st_heap st p)"
  by (auto simp: fold_arguments_def Let_def upd_op_def split: sum.splits prod.splits)

lemma bit0_merge_store_temp:
  "bit (inlineArgs_of (st_heap (merge_store_temp instr st) instr)) 0
     = bit (inlineArgs_of (st_heap st instr)) 0"
  by (auto simp: merge_store_temp_def Let_def upd_op_def inlineArgs_of_def bit_or_iff
           split: option.splits)

lemma opcode_merge_store_temp:
  "opcode (st_heap (merge_store_temp instr st) p) = opcode (st_heap st p)"
  by (auto simp: merge_store_temp_def Let_def upd_op_def split: option.splits)

text \<open>
  C4, as amended. The destination of a store (position 0) is exempt from the purity
  check, not from folding: when the loop body has run over a store, bit 0 of its
  \<open>inlineArgs\<close> is set exactly when the destination is no operation or is an operation
  that passes the complexity and arity gates, whatever is stored between it and the
  store.
\<close>

theorem store_destination_folding:
  assumes run: "process_instruction fuel func binstrs i st = Inr st'"
    and st: "opcode (st_heap st (binstrs ! i)) = OpStore"
    and dst: "arg_at (st_heap st (binstrs ! i)) 0 = Some dst"
    and nb: "\<not> bit (inlineArgs_of (st_heap st (binstrs ! i))) 0"
  shows "bit (inlineArgs_of (st_heap st' (binstrs ! i))) 0
     \<longleftrightarrow> passes_gates (st_heap st) (binstrs ! i) dst"
proof -
  let ?instr = "binstrs ! i"
  define st0 where "st0 = (if ?instr \<notin> st_ignore st
      then st\<lparr>st_funcops := st_funcops st @ [?instr]\<rparr> else st)"
  have h0: "st_heap st0 = st_heap st" by (simp add: st0_def)
  have opn: "op (st_heap st0 ?instr) \<noteq> None"
    using dst h0 by (auto simp: arg_at_def arguments_of_def split: option.splits if_splits)
  from run opn obtain st1 where f: "fold_arguments fuel func ?instr st0 = Inr st1"
    by (auto simp: process_instruction_def Let_def st0_def split: sum.splits if_splits)
  have o1: "opcode (st_heap st1 ?instr) = OpStore"
    using opcode_fold_arguments[OF f] st h0 by simp
  then have m: "merge_single_store fuel func ?instr st1 = Inr st1"
    by (simp add: merge_single_store_other)
  have "st' = merge_store_temp ?instr st1"
    using run opn f m o1
    by (simp add: process_instruction_def Let_def st0_def[symmetric] opcode_merge_store_temp)
  then have b: "bit (inlineArgs_of (st_heap st' ?instr)) 0 = bit (inlineArgs_of (st_heap st1 ?instr)) 0"
    by (simp add: bit0_merge_store_temp)
  obtain rest where args: "arguments_of (st_heap st ?instr) = dst # rest"
    using dst by (cases "arguments_of (st_heap st ?instr)") (auto simp: arg_at_def)
  from inlineArgs_of_fold_arguments[OF f opn] obtain fops mc where
    "inline_args fuel (st_heap st) func ?instr 0 (dst # rest)
        (st_funcops st0, inlineArgs_of (st_heap st ?instr), 0)
       = Inr (fops, inlineArgs_of (st_heap st1 ?instr), mc)"
    using h0 args by auto
  from inline_args_store_dest[OF this st nb] b show ?thesis by simp
qed

theorem store_destination_folding_witness:
  "opcode (negate_heap ([2, 3, 4, 5, 6] ! 3)) = OpStore
   \<and> arg_at (negate_heap 5) 0 = Some 1
   \<and> passes_gates negate_heap 5 1
   \<and> annotations [5] (process_instruction 4 negate_func [2, 3, 4, 5, 6] 3
        \<lparr>st_heap = negate_heap, st_funcops = [4], st_vars = [1], st_ignore = {}\<rparr>)
       = Inr [(0, 3)]"
proof -
  let ?st = "\<lparr>st_heap = negate_heap, st_funcops = [4], st_vars = [1], st_ignore = {}\<rparr>"
  have a: "annotations [5] (process_instruction 4 negate_func [2, 3, 4, 5, 6] 3 ?st) = Inr [(0, 3)]"
    by code_simp
  then obtain st' where r: "process_instruction 4 negate_func [2, 3, 4, 5, 6] 3 ?st = Inr st'"
    and b: "inlineArgs_of (st_heap st' 5) = 3"
    by (auto dest: annotations_Inr)
  have o: "opcode (negate_heap ([2, 3, 4, 5, 6] ! 3)) = OpStore"
    by (simp add: negate_heap_def example_defs)
  have d: "arg_at (negate_heap 5) 0 = Some 1"
    by (simp add: arg_at_def arguments_of_def negate_heap_def example_defs)
  have nb: "\<not> bit (inlineArgs_of (negate_heap 5)) 0"
    by (simp add: inlineArgs_of_def negate_heap_def example_defs)
  have "bit (3 :: 32 word) 0" by simp
  with store_destination_folding[OF r, of 1] o d nb b
  have "passes_gates negate_heap 5 1" by simp
  then show ?thesis using o d a by simp
qed

text \<open>The claim as stated fails: after the inliner has run over \<open>negate_func\<close>, the store
  at address 5, whose destination is the variable \<open>v\<close>, has \<open>inlineArgs = 3\<close>: bit 0 is
  set.\<close>

theorem store_destination_counterexample:
  "opcode (negate_heap 5) = OpStore
   \<and> annotations [5] (inline_function 5 [] negate_heap negate_func) = Inr [(3, 3)]
   \<and> bit (3 :: 32 word) 0"
proof -
  have "annotations [5] (inline_function 5 [] negate_heap negate_func) = Inr [(3, 3)]"
    by code_simp
  then show ?thesis by (simp add: negate_heap_def example_defs)
qed


section \<open>The header check and the id table\<close>

text \<open>
  C1. A buffer whose first word is not the magic number, or whose second word is not the
  supported version, makes \<^verbatim>\<open>ParseSPIRV\<close> emit a diagnostic and return with a module that
  still contains no instructions: \<open>operations\<close>, \<open>ids\<close>, \<open>globals\<close> and \<open>funcs\<close> stay empty
  (only \<open>moduleVersion\<close> has been assigned when the version is refused).
\<close>

theorem ParseSPIRV_rejects_header:
  assumes "w0 \<noteq> MagicNumber \<or> (\<exists>v rest'. rest = v # rest' \<and> v \<noteq> version)"
    and "no_instructions module"
  shows "\<exists>d m. ParseSPIRV passes version (w0 # rest) module = Rejected d m
           \<and> no_instructions m
           \<and> (if w0 \<noteq> MagicNumber then d = UnrecognisedMagic w0 \<and> m = module
              else d = UnsupportedVersion (hd rest) \<and> m = module\<lparr>moduleVersion := hd rest\<rparr>)"
  using assms
  by (auto simp: ParseSPIRV_def ParseSPIRV_header_def no_instructions_def Let_def)

theorem ParseSPIRV_rejects_header_witness:
  "no_instructions new_SPVModule
   \<and> ParseSPIRV lookup_pass 99 [0x12345678, 99, 0, 3, 0] new_SPVModule
       = Rejected (UnrecognisedMagic 0x12345678) new_SPVModule
   \<and> ParseSPIRV lookup_pass 99 [MagicNumber, 100, 0, 3, 0] new_SPVModule
       = Rejected (UnsupportedVersion 100) (new_SPVModule\<lparr>moduleVersion := 100\<rparr>)"
proof -
  have n: "no_instructions new_SPVModule"
    by (simp add: no_instructions_def new_SPVModule_def)
  have m: "(0x12345678 :: 32 word) \<noteq> MagicNumber" by (simp add: MagicNumber_def)
  show ?thesis
    using ParseSPIRV_rejects_header[of "0x12345678" "[99, 0, 3, 0]" 99 new_SPVModule lookup_pass]
      ParseSPIRV_rejects_header[of MagicNumber "[100, 0, 3, 0]" 99 new_SPVModule lookup_pass]
      n m
    by auto
qed

lemma GetByID_length_ids: "GetByID m x = Inr (p, m') \<Longrightarrow> length (ids m') = length (ids m)"
  by (auto simp: GetByID_def Let_def split: if_splits option.splits)

lemma ids_valid_iff:
  "ids_valid m \<longleftrightarrow> (\<forall>k < length (ids m). \<forall>p. ids m ! k = Some p \<longrightarrow> p < length (operations m))"
  by (auto simp: ids_valid_def list_all_length split: option.splits)

lemma GetByID_ids_valid: "GetByID m x = Inr (p, m') \<Longrightarrow> ids_valid m \<Longrightarrow> ids_valid m'"
  unfolding ids_valid_iff
  by (auto simp: GetByID_def Let_def nth_list_update less_Suc_eq split: if_splits option.splits)

text \<open>No statement of the passes changes the size of \<open>ids\<close> or lets an entry point
  outside \<open>operations\<close>.\<close>

lemma parser_reach_ids:
  "parser_reach m0 m \<Longrightarrow> ids_valid m0 \<Longrightarrow> length (ids m) = length (ids m0) \<and> ids_valid m"
proof (induction rule: parser_reach.induct)
  case (reach_refl m)
  then show ?case by simp
next
  case (reach_push m m1)
  then show ?case by (auto simp: ids_valid_iff less_Suc_eq)
next
  case (reach_GetByID m m1 x p m2)
  then show ?case using GetByID_length_ids GetByID_ids_valid by metis
next
  case (reach_ids m m1 p x)
  then show ?case by (auto simp: ids_valid_iff nth_list_update)
next
  case (reach_field m m1 p i)
  then show ?case by (auto simp: ids_valid_iff)
next
  case (reach_other m m1 m2)
  then show ?case by (auto simp: ids_valid_iff)
qed

lemma header_accepted:
  assumes "ParseSPIRV_header version buf new_SPVModule = Accepted m0"
  shows "length (ids m0) = unat (buf ! 3) \<and> ids_valid m0"
  using assms
  by (auto simp: ParseSPIRV_header_def new_SPVModule_def resize_def ids_valid_def Let_def
        list_all_length split: list.splits if_splits)

lemma GetByID_in_range:
  assumes "unat k < length (ids m)" "ids_valid m"
  shows "\<exists>p m'. GetByID m k = Inr (p, m') \<and> p < length (operations m')
           \<and> ids m' ! unat k = Some p
           \<and> (case ids m ! unat k of
                Some q \<Rightarrow> p = q \<and> m' = m
              | None \<Rightarrow> operations m' ! p = new_SPVInstruction\<lparr>opcode := OpUnknown, ident := k\<rparr>)"
  using assms unfolding ids_valid_iff
  by (auto simp: GetByID_def Let_def split: option.splits)

text \<open>
  C2. After \<^verbatim>\<open>ParseSPIRV\<close> has accepted a module (its passes being made of the parser's
  statements), \<^verbatim>\<open>GetByID(k)\<close> returns an instruction of the module for every \<open>k\<close> below
  the bound word of the header; where \<open>k\<close> was never defined it is a new instruction with
  opcode \<open>OpUnknown\<close> and id \<open>k\<close>, which the id table holds from then on.
\<close>

theorem GetByID_total_below_bound:
  assumes "ParseSPIRV passes version buf new_SPVModule = Accepted m"
    and "\<forall>m0. parser_reach m0 (passes m0)"
    and "k < buf ! 3"
  shows "\<exists>p m'. GetByID m k = Inr (p, m') \<and> p < length (operations m')
           \<and> ids m' ! unat k = Some p
           \<and> (case ids m ! unat k of
                Some q \<Rightarrow> p = q \<and> m' = m
              | None \<Rightarrow> operations m' ! p = new_SPVInstruction\<lparr>opcode := OpUnknown, ident := k\<rparr>)"
proof -
  from assms(1) obtain m0 where h: "ParseSPIRV_header version buf new_SPVModule = Accepted m0"
    and m: "m = passes m0"
    by (auto simp: ParseSPIRV_def split: header_result.splits)
  have r: "parser_reach m0 m" using assms(2) m by simp
  from header_accepted[OF h] parser_reach_ids[OF r]
  have "length (ids m) = unat (buf ! 3)" "ids_valid m" by auto
  moreover have "unat k < unat (buf ! 3)" using assms(3) by (simp add: word_less_nat_alt)
  ultimately show ?thesis using GetByID_in_range[of k m] by simp
qed

lemma lookup_pass_reach: "parser_reach m0 (lookup_pass m0)"
proof (cases "GetByID m0 1")
  case (Inl e)
  then show ?thesis by (simp add: lookup_pass_def reach_refl)
next
  case (Inr r)
  then show ?thesis
    by (cases r) (auto simp: lookup_pass_def intro: reach_GetByID[OF reach_refl])
qed

lemma small_header_parsed:
  "ParseSPIRV lookup_pass 99 small_header new_SPVModule =
     Accepted (new_SPVModule\<lparr>moduleVersion := 99, spirv := small_header, generator := 0,
        operations := [new_SPVInstruction\<lparr>opcode := OpUnknown, ident := 1\<rparr>],
        ids := [None, Some 0, None]\<rparr>)"
proof -
  have r: "replicate 3 (None :: ptr option) = [None, None, None]"
    by (simp add: numeral_3_eq_3)
  show ?thesis
    by (simp add: ParseSPIRV_def ParseSPIRV_header_def small_header_def lookup_pass_def
          GetByID_def new_SPVModule_def resize_def Let_def r)
qed

theorem GetByID_total_below_bound_witness:
  "(2 :: 32 word) < small_header ! 3
   \<and> (case ParseSPIRV lookup_pass 99 small_header new_SPVModule of
        Accepted m \<Rightarrow>
          map_sum id fst (GetByID m 1) = Inr 0 \<and> map_sum id fst (GetByID m 2) = Inr 1
          \<and> map_sum id (\<lambda>r. operations (snd r) ! 1) (GetByID m 2)
              = Inr (new_SPVInstruction\<lparr>opcode := OpUnknown, ident := 2\<rparr>)
      | _ \<Rightarrow> False)"
proof -
  have b: "(2 :: 32 word) < small_header ! 3" by (simp add: small_header_def)
  from GetByID_total_below_bound[OF small_header_parsed _ b] lookup_pass_reach
  obtain p m' where "GetByID (new_SPVModule\<lparr>moduleVersion := 99, spirv := small_header,
        generator := 0, operations := [new_SPVInstruction\<lparr>opcode := OpUnknown, ident := 1\<rparr>],
        ids := [None, Some 0, None]\<rparr>) 2 = Inr (p, m')" by blast
  then show ?thesis using b
    by (auto simp: small_header_parsed GetByID_def Let_def split: if_splits)
qed


section \<open>The vector shuffle\<close>

lemma maxShuffle_ge: "m \<le> maxShuffle vectorSize lits m"
proof (induction lits arbitrary: m)
  case Nil
  then show ?case by simp
next
  case (Cons lit lits)
  have "m \<le> max m lit" by simp
  also have "\<dots> \<le> maxShuffle vectorSize lits (max m lit)" by (rule Cons.IH)
  finally show ?case by (simp add: Let_def)
qed

lemma maxShuffle_ge_literal: "lit \<in> set lits \<Longrightarrow> lit \<le> maxShuffle vectorSize lits m"
proof (induction lits arbitrary: m)
  case Nil
  then show ?case by simp
next
  case (Cons x lits)
  show ?case
  proof (cases "lit = x")
    case True
    have "x \<le> max m x" by simp
    also have "\<dots> \<le> maxShuffle vectorSize lits (max m x)" by (rule maxShuffle_ge)
    finally show ?thesis using True by (simp add: Let_def)
  next
    case False
    then show ?thesis using Cons by (simp add: Let_def)
  qed
qed

text \<open>A selector of 4 or more, whichever source it names, switches the swizzle off: the
  maximum is taken over the raw literals. So nothing is rendered between the brackets for
  a selector of the second vec4, and none for the undefined selector \<open>0xFFFFFFFF\<close>: the
  \<open>_\<close> of \<^verbatim>\<open>swizzle\<close> is never reached.\<close>

lemma shuffle_not_rendered:
  assumes "lit \<in> set lits" "4 \<le> lit"
  shows "Disassemble_VectorShuffle True typeName idName vectorSize GetArg lits
     = typeName @ ''()''"
proof -
  have "4 \<le> maxShuffle vectorSize lits 0"
    using maxShuffle_ge_literal[OF assms(1), of vectorSize 0] assms(2) by simp
  then show ?thesis by (simp add: Disassemble_VectorShuffle_def Let_def not_less[symmetric])
qed

text \<open>
  C6 fails on the code. The shuffle of two 4-component vectors with selectors
  \<open>(0, 1, 4, 5)\<close> is rendered as \<open>float4()\<close>, not as \<open>float4(a.xy, b.xy)\<close>, whatever the
  arguments render to.
\<close>

theorem shuffle_0145_rendering:
  "Disassemble_VectorShuffle True ''float4'' idName 4 GetArg [0, 1, 4, 5] = ''float4()''"
  by (simp add: Disassemble_VectorShuffle_def Let_def)

text \<open>Where the swizzle is on, every segment names argument 0, and a selector equal to
  the size of the first vector counts as its component: two 2-component sources \<open>a\<close> and
  \<open>b\<close> with selectors \<open>(0, 2, 3)\<close>, that is \<open>a.x, b.x, b.y\<close>, render as \<open>a.xz, a.y\<close>.\<close>

lemma shuffle_023_rendering:
  "Disassemble_VectorShuffle True ''float3'' idName 2 (\<lambda>n. if n = 0 then ''a'' else ''b'') [0, 2, 3]
     = ''float3(a.xz, a.y)''"
  by (simp add: Disassemble_VectorShuffle_def Let_def)

lemma shuffle_3210_rendering:
  "Disassemble_VectorShuffle False ''float4'' ''{9}'' 4 (\<lambda>n. if n = 0 then ''a'' else ''b'')
     [3, 2, 1, 0] = ''float4 {9} = float4(a.wzyx)''"
  by code_simp


section \<open>The order of the binding tables\<close>

lemma sint_eq_iff: "sint (a :: 32 word) = sint b \<longleftrightarrow> a = b"
  by (auto simp: signed_word_eqI)

text \<open>\<^verbatim>\<open>operator<\<close> is a strict weak order: "not less" is total and transitive, and it
  is the order of the specification.\<close>

lemma not_less_table_order:
  "\<not> bindpair_less b a \<longleftrightarrow> table_order (bindmap a) (bindmap b)"
proof (cases "bindset (bindmap a) = bindset (bindmap b)")
  case True
  then show ?thesis
    using sint_eq_iff[of "bind (bindmap a)" "bind (bindmap b)"]
    by (auto simp: bindpair_less_def table_order_def)
next
  case False
  then have "sint (bindset (bindmap a)) \<noteq> sint (bindset (bindmap b))"
    by (simp add: sint_eq_iff)
  then show ?thesis using False by (auto simp: bindpair_less_def table_order_def)
qed

lemma table_order_total: "table_order a b \<or> table_order b a"
  by (auto simp: table_order_def sint_eq_iff) 

lemma table_order_trans: "table_order a b \<Longrightarrow> table_order b c \<Longrightarrow> table_order a c"
  by (auto simp: table_order_def sint_eq_iff)

lemma set_insert_sorted: "set (insert_sorted lt x xs) = insert x (set xs)"
  by (induction xs) auto

lemma mset_insert_sorted: "mset (insert_sorted lt x xs) = add_mset x (mset xs)"
  by (induction xs) auto

lemma mset_insertion_sort: "mset (insertion_sort lt xs) = mset xs"
  by (induction xs) (simp_all add: insertion_sort_def mset_insert_sorted)

lemma sorted_insert_sorted:
  "sorted_wrt (\<lambda>a b. table_order (bindmap a) (bindmap b)) xs \<Longrightarrow>
   sorted_wrt (\<lambda>a b. table_order (bindmap a) (bindmap b)) (insert_sorted bindpair_less x xs)"
proof (induction xs)
  case Nil
  then show ?case by simp
next
  case (Cons y ys)
  show ?case
  proof (cases "bindpair_less y x")
    case False
    then have xy: "table_order (bindmap x) (bindmap y)" by (simp add: not_less_table_order)
    then have "\<forall>z \<in> set ys. table_order (bindmap x) (bindmap z)"
      using Cons.prems by (auto intro: table_order_trans)
    then show ?thesis using False xy Cons.prems by simp
  next
    case True
    then have "\<not> table_order (bindmap x) (bindmap y)" by (simp add: not_less_table_order[symmetric])
    then have yx: "table_order (bindmap y) (bindmap x)" using table_order_total by blast
    then show ?thesis using True Cons by (auto simp: set_insert_sorted)
  qed
qed

lemma sorted_insertion_sort:
  "sorted_wrt (\<lambda>a b. table_order (bindmap a) (bindmap b)) (insertion_sort bindpair_less xs)"
  by (induction xs) (simp_all add: insertion_sort_def sorted_insert_sorted)

text \<open>Every vector has a sort result, so what follows is not about nothing.\<close>

lemma sort_result_exists:
  "sort_result bindpair_less pairs (insertion_sort bindpair_less pairs)"
  using sorted_insertion_sort[of pairs]
  by (simp add: sort_result_def mset_insertion_sort not_less_table_order)

lemma map_of_snd_enumerate: "map (\<lambda>x. f (snd x)) (enumerate n xs) = map f xs"
  by (induction xs arbitrary: n) simp_all

lemma map_of_fst_enumerate:
  "map (\<lambda>x. f (fst x)) (enumerate n xs) = map f [n ..< n + length xs]"
proof -
  have "map (\<lambda>x. f (fst x)) ys = map f (map fst ys)" for ys :: "(nat \<times> 'b) list"
    by (simp add: comp_def)
  from this[of "enumerate n xs"] show ?thesis by (simp only: map_fst_enumerate)
qed

lemma bind_fix_bind: "bind (fix_bind m) \<noteq> - 1"
  by (simp add: fix_bind_def)

lemma fst_binding_table: "fst (binding_table ys) = map fix_bind (map bindmap ys)"
  by (simp add: binding_table_def)

lemma map_fst_binding_table: "map fst (snd (binding_table ys)) = map bindres ys"
  by (simp add: binding_table_def split_def comp_def map_of_snd_enumerate)

lemma map_snd_binding_table:
  "map snd (snd (binding_table ys)) = map word_of_nat [0 ..< length ys]"
  by (simp add: binding_table_def split_def comp_def map_of_fst_enumerate)

text \<open>
  What the sort and the loop after it give, whatever the library does with equivalent
  entries: the sorted vector is a permutation of the entries ordered by (descriptor set,
  binding), where a binding of \<open>-1\<close> counts as greater than every other binding of the
  same descriptor set; the mapping is the sorted vector with every bind point \<open>-1\<close>
  rewritten to 0 and all else unchanged, and the reflection entries follow the sorted
  vector, numbered from 0.
\<close>

lemma binding_table_sorted:
  assumes "sort_result bindpair_less pairs ys"
  shows "mset ys = mset pairs"
    and "sorted_wrt table_order (map bindmap ys)"
    and "fst (binding_table ys) = map fix_bind (map bindmap ys)"
    and "\<forall>m \<in> set (fst (binding_table ys)). bind m \<noteq> - 1"
    and "map fst (snd (binding_table ys)) = map bindres ys"
    and "map snd (snd (binding_table ys)) = map word_of_nat [0 ..< length pairs]"
proof -
  show a: "mset ys = mset pairs" using assms by (simp add: sort_result_def)
  show "sorted_wrt table_order (map bindmap ys)"
    using assms by (simp add: sort_result_def sorted_wrt_map not_less_table_order)
  show "fst (binding_table ys) = map fix_bind (map bindmap ys)"
    by (rule fst_binding_table)
  show "\<forall>m \<in> set (fst (binding_table ys)). bind m \<noteq> - 1"
    unfolding fst_binding_table using bind_fix_bind by auto
  show "map fst (snd (binding_table ys)) = map bindres ys"
    by (rule map_fst_binding_table)
  have "length ys = length pairs" using a by (rule mset_eq_length)
  then show "map snd (snd (binding_table ys)) = map word_of_nat [0 ..< length pairs]"
    by (simp add: map_snd_binding_table)
qed

lemma fix_bind_cases:
  "bind m \<noteq> - 1 \<Longrightarrow> fix_bind m = m" "bind m = - 1 \<Longrightarrow> fix_bind m = m\<lparr>bind := 0\<rparr>"
  by (simp_all add: fix_bind_def)

lemma three_resources_sorted:
  "map (\<lambda>p. (bindres p, bind (bindmap p))) (insertion_sort bindpair_less three_resources)
     = [(''r1'', 1), (''r2'', 2), (''unbound'', - 1)]
   \<and> map bind (fst (binding_table (insertion_sort bindpair_less three_resources))) = [1, 2, 0]
   \<and> snd (binding_table (insertion_sort bindpair_less three_resources))
     = [(''r1'', 0), (''r2'', 1), (''unbound'', 2)]
   \<and> unbound_last (map bindmap (insertion_sort bindpair_less three_resources))"
  by code_simp

lemma mset_pair:
  assumes "mset ys = {#a, b#}"
  shows "ys = [a, b] \<or> ys = [b, a]"
proof -
  have "length ys = 2" using mset_eq_length[of ys "[a, b]"] assms by simp
  then obtain x y where ys: "ys = [x, y]"
    by (cases ys; cases "tl ys") auto
  then have "{#x, y#} = {#a, b#}" using assms by simp
  then show ?thesis unfolding ys by (auto simp: add_eq_conv_ex)
qed

text \<open>
  C8 fails on the code. \<open>MakeReflection\<close> is to output each table sorted by (descriptor
  set, binding) with exactly the entries of input binding \<open>-1\<close> after all other entries
  (the comments of the code say the same: they are sorted "to the end of the resources
  list"), and \<open>-1\<close> rewritten to 0 after the sort. Of the two constant blocks, \<open>A\<close> has
  binding 0 in set 1 and \<open>B\<close> has no decoration, so \<open>B\<close> has binding \<open>-1\<close> and set 0.
  \<^verbatim>\<open>operator<\<close> compares the descriptor sets first and looks at \<open>-1\<close> only when they are
  equal: the one vector that \<^verbatim>\<open>std::sort\<close> may leave is \<open>B, A\<close>, with the entry without
  binding first, and the tables come out as \<open>B, A\<close> with bind points 0 and 0.
\<close>

theorem unbound_block_sorted_first:
  "map (\<lambda>p. (bindres p, bindset (bindmap p), bind (bindmap p))) two_blocks
     = [(''A'', 1, 0), (''B'', 0, - 1)]
   \<and> {ys. sort_result bindpair_less two_blocks ys} = {[two_blocks ! 1, two_blocks ! 0]}
   \<and> unbound_last (map bindmap two_blocks)
   \<and> \<not> unbound_last (map bindmap [two_blocks ! 1, two_blocks ! 0])
   \<and> map (\<lambda>m. (bindset m, bind m)) (fst (binding_table [two_blocks ! 1, two_blocks ! 0]))
     = [(0, 0), (1, 0)]
   \<and> snd (binding_table [two_blocks ! 1, two_blocks ! 0]) = [(''B'', 0), (''A'', 1)]"
proof -
  have i: "map (\<lambda>p. (bindres p, bindset (bindmap p), bind (bindmap p))) two_blocks
     = [(''A'', 1, 0), (''B'', 0, - 1)]"
    by code_simp
  have l: "bindpair_less (two_blocks ! 1) (two_blocks ! 0)"
    "\<not> bindpair_less (two_blocks ! 0) (two_blocks ! 1)"
    "\<not> bindpair_less (two_blocks ! 0) (two_blocks ! 0)"
    "\<not> bindpair_less (two_blocks ! 1) (two_blocks ! 1)"
    by code_simp+
  have tb: "two_blocks = [two_blocks ! 0, two_blocks ! 1]"
    by (simp add: two_blocks_def)
  have "sort_result bindpair_less two_blocks ys \<longleftrightarrow> ys = [two_blocks ! 1, two_blocks ! 0]" for ys
  proof
    assume s: "sort_result bindpair_less two_blocks ys"
    then have "mset ys = {#two_blocks ! 0, two_blocks ! 1#}"
      by (subst (asm) tb) (simp add: sort_result_def)
    then have "ys = [two_blocks ! 0, two_blocks ! 1] \<or> ys = [two_blocks ! 1, two_blocks ! 0]"
      by (rule mset_pair)
    then show "ys = [two_blocks ! 1, two_blocks ! 0]"
      using s l by (auto simp: sort_result_def)
  next
    assume "ys = [two_blocks ! 1, two_blocks ! 0]"
    then show "sort_result bindpair_less two_blocks ys"
      using l by (subst tb) (simp add: sort_result_def)
  qed
  then have s: "{ys. sort_result bindpair_less two_blocks ys} = {[two_blocks ! 1, two_blocks ! 0]}"
    by auto
  have u: "unbound_last (map bindmap two_blocks)"
    by code_simp
  have n: "\<not> unbound_last (map bindmap [two_blocks ! 1, two_blocks ! 0])"
    by code_simp
  have m: "map (\<lambda>m. (bindset m, bind m)) (fst (binding_table [two_blocks ! 1, two_blocks ! 0]))
     = [(0, 0), (1, 0)]"
    by code_simp
  have r: "snd (binding_table [two_blocks ! 1, two_blocks ! 0]) = [(''B'', 0), (''A'', 1)]"
    by code_simp
  show ?thesis by (intro conjI; fact)
qed

section \<open>A second run of the inliner\<close>




lemma same_bare_upd_op: "same_bare (h q) (upd_op f p h q)"
  by (simp add: upd_op_def same_bare_def)




lemma touches_refl: "touches T h h"
  by (simp add: touches_def same_bare_def)

lemma touches_trans: "touches T h h' \<Longrightarrow> touches T' h' h'' \<Longrightarrow> touches (T \<union> T') h h''"
  by (simp add: touches_def same_bare_def)

lemma touches_mono: "touches T h h' \<Longrightarrow> T \<subseteq> T' \<Longrightarrow> touches T' h h'"
  by (auto simp: touches_def)

lemma touches_upd_op: "touches {p} h (upd_op f p h)"
  by (simp add: touches_def same_bare_upd_op) (simp add: upd_op_def)

lemma touches_block:
  "touches T h h' \<Longrightarrow> block (h' p) = block (h p) \<and> block_instructions (h' p) = block_instructions (h p)"
  by (simp add: touches_def same_bare_def block_instructions_def)

text \<open>What the steps of the inliner write: the operation payload of the instruction at
  hand, and entries taken out of the emit list or the instruction added to it.\<close>

lemma set_erase_item: "set (erase_item xs x) \<subseteq> set xs"
  by (induction xs) auto

lemma inline_args_Cons:
  "(\<exists>e. \<forall>b. inline_args fuel h func instr a (arg # rest) (fops, b, mc) = Inl e)
   \<or> (\<exists>F M. set F \<subseteq> set fops \<and>
         ((\<forall>b. inline_args fuel h func instr a (arg # rest) (fops, b, mc)
               = inline_args fuel h func instr (a + 1) rest (F, b, M))
          \<or> (\<forall>b. inline_args fuel h func instr a (arg # rest) (fops, b, mc)
               = inline_args fuel h func instr (a + 1) rest (F, b OR push_bit a 1, M))))"
proof -
  let ?lhs = "\<lambda>b. inline_args fuel h func instr a (arg # rest) (fops, b, mc)"
  let ?k = "\<lambda>F b M. inline_args fuel h func instr (a + 1) rest (F, b, M)"
  have sub: "set (erase_item fops arg) \<subseteq> set fops" by (rule set_erase_item)
  have skip: "(\<forall>b. ?lhs b = ?k fops b mc) \<Longrightarrow> ?thesis"
    by (intro disjI2 exI[of _ fops] exI[of _ mc] conjI disjI1) simp_all
  have fold: "(\<forall>b. ?lhs b = ?k (erase_item fops arg) (b OR push_bit a 1) M) \<Longrightarrow> ?thesis" for M
    using sub by (intro disjI2 exI[of _ "erase_item fops arg"] exI[of _ M] conjI disjI2)
  have stop: "(\<forall>b. ?lhs b = Inl e) \<Longrightarrow> ?thesis" for e
    by (intro disjI1 exI[of _ e])
  show ?thesis
  proof (cases "a < 32")
    case wide: False
    show ?thesis
    proof (cases "op (h arg)")
      case None
      then have "\<forall>b. ?lhs b = Inl (ShiftOutOfRange a)" using wide by simp
      then show ?thesis by (rule stop)
    next
      case (Some aop)
      let ?g = "complexity aop \<ge> (if opcode (h instr) = OpCompositeConstruct
                       then min 2 NO_INLINE_COMPLEXITY else NO_INLINE_COMPLEXITY) \<or>
                (length (arguments aop) > 2 \<and> opcode (h arg) \<noteq> OpAccessChain \<and>
                 opcode (h arg) \<noteq> OpSelect \<and> opcode (h arg) \<noteq> OpCompositeConstruct)"
      show ?thesis
      proof (cases ?g)
        case True
        then have "\<forall>b. ?lhs b = ?k fops b mc" using Some by (simp add: Let_def)
        then show ?thesis by (rule skip)
      next
        case False
        show ?thesis
        proof (cases "opcode (h instr) \<noteq> OpStore \<or> a > 0")
          case n: False
          then have "\<forall>b. ?lhs b = Inl (ShiftOutOfRange a)"
            using Some False wide by (auto simp: Let_def)
          then show ?thesis by (rule stop)
        next
          case y: True
          show ?thesis
          proof (cases "IsUnmodified fuel h func arg instr")
            case None
            then have "\<forall>b. ?lhs b = Inl OutOfFuel" using Some False y by (auto simp: Let_def)
            then show ?thesis by (rule stop)
          next
            case u: (Some r)
            show ?thesis
            proof (cases r)
              case True
              then have "\<forall>b. ?lhs b = Inl (ShiftOutOfRange a)"
                using Some False y u wide by (auto simp: Let_def)
              then show ?thesis by (rule stop)
            next
              case f: False
              then have "\<forall>b. ?lhs b = ?k fops b mc" using Some False y u by (auto simp: Let_def)
              then show ?thesis by (rule skip)
            qed
          qed
        qed
      qed
    qed
  next
  case narrow: True
  show ?thesis
  proof (cases "op (h arg)")
    case None
    then have "\<forall>b. ?lhs b = ?k (erase_item fops arg) (b OR push_bit a 1) mc"
      using narrow by simp
    then show ?thesis by (rule fold)
  next
    case (Some aop)
    let ?g = "complexity aop \<ge> (if opcode (h instr) = OpCompositeConstruct
                       then min 2 NO_INLINE_COMPLEXITY else NO_INLINE_COMPLEXITY) \<or>
                (length (arguments aop) > 2 \<and> opcode (h arg) \<noteq> OpAccessChain \<and>
                 opcode (h arg) \<noteq> OpSelect \<and> opcode (h arg) \<noteq> OpCompositeConstruct)"
    show ?thesis
    proof (cases ?g)
      case True
      then have "\<forall>b. ?lhs b = ?k fops b mc" using Some by (simp add: Let_def)
      then show ?thesis by (rule skip)
    next
      case False
      show ?thesis
      proof (cases "opcode (h instr) \<noteq> OpStore \<or> a > 0")
        case n: False
        then have "\<forall>b. ?lhs b = ?k (erase_item fops arg) (b OR push_bit a 1) (max (complexity aop) mc)"
          using Some False narrow by (auto simp: Let_def)
        then show ?thesis by (rule fold)
      next
        case y: True
        show ?thesis
        proof (cases "IsUnmodified fuel h func arg instr")
          case None
          then have "\<forall>b. ?lhs b = Inl OutOfFuel" using Some False y by (auto simp: Let_def)
          then show ?thesis by (rule stop)
        next
          case u: (Some r)
          show ?thesis
          proof (cases r)
            case True
            then have "\<forall>b. ?lhs b = ?k (erase_item fops arg) (b OR push_bit a 1) (max (complexity aop) mc)"
              using Some False y u narrow by (auto simp: Let_def)
            then show ?thesis by (rule fold)
          next
            case f: False
            then have "\<forall>b. ?lhs b = ?k fops b mc" using Some False y u by (auto simp: Let_def)
            then show ?thesis by (rule skip)
          qed
        qed
      qed
    qed
  qed
  qed
qed

lemma inline_args_funcops:
  "inline_args fuel h func instr a args (fops, bits, mc) = Inr (fops', bits', mc')
   \<Longrightarrow> set fops' \<subseteq> set fops"
proof (induction args arbitrary: a fops bits mc)
  case Nil
  then show ?case by simp
next
  case (Cons arg rest)
  from inline_args_Cons[of fuel h func instr a arg rest fops mc] Cons.prems
  obtain F b M where "set F \<subseteq> set fops"
    "inline_args fuel h func instr (a + 1) rest (F, b, M) = Inr (fops', bits', mc')"
    by (metis sum.distinct(1))
  then show ?case using Cons.IH by blast
qed

lemma in_set_erase_item: "x \<in> set (erase_item xs y) \<Longrightarrow> x \<in> set xs"
  using set_erase_item[of xs y] by blast

lemma in_inline_args_funcops:
  "inline_args fuel h func instr a args (fops, bits, mc) = Inr (fops', bits', mc')
   \<Longrightarrow> x \<in> set fops' \<Longrightarrow> x \<in> set fops"
  using inline_args_funcops by blast


lemma touches_fold_arguments:
  "fold_arguments fuel func instr st = Inr st' \<Longrightarrow>
     touches {instr} (st_heap st) (st_heap st') \<and> set (st_funcops st') \<subseteq> set (st_funcops st)
     \<and> st_vars st' = st_vars st \<and> st_ignore st' = st_ignore st"
  by (auto simp: fold_arguments_def Let_def touches_upd_op
        split: sum.splits prod.splits dest: in_inline_args_funcops)

lemma touches_merge_single_store:
  "merge_single_store fuel func instr st = Inr st' \<Longrightarrow>
     touches {instr} (st_heap st) (st_heap st') \<and> set (st_funcops st') \<subseteq> set (st_funcops st)
     \<and> st_ignore st' = st_ignore st"
  by (auto simp: merge_single_store_def Let_def touches_upd_op touches_refl
        split: if_splits prod.splits option.splits nat.splits bool.splits
        dest: in_set_erase_item)

lemma touches_merge_store_temp:
  "touches {instr} (st_heap st) (st_heap (merge_store_temp instr st))
   \<and> set (st_funcops (merge_store_temp instr st)) \<subseteq> set (st_funcops st)
   \<and> st_vars (merge_store_temp instr st) = st_vars st
   \<and> st_ignore (merge_store_temp instr st) = st_ignore st"
  by (auto simp: merge_store_temp_def Let_def touches_upd_op touches_refl split: option.splits
        dest: in_set_erase_item)

lemma touches_elide_out_parameter:
  "elide_out_parameter binstrs instr a arg storeBefore loadAfter st = Inr st' \<Longrightarrow>
     touches {instr} (st_heap st) (st_heap st') \<and> set (st_funcops st') \<subseteq> set (st_funcops st)"
  by (auto simp: elide_out_parameter_def Let_def set_argument_def touches_upd_op touches_refl
        split: prod.splits if_splits option.splits sum.splits bool.splits
        dest: in_set_erase_item)

lemma touches_elide_parameter:
  "elide_parameter binstrs i instr a st = Inr st' \<Longrightarrow>
     touches {instr} (st_heap st) (st_heap st') \<and> set (st_funcops st') \<subseteq> set (st_funcops st)"
  by (auto simp: elide_parameter_def Let_def set_argument_def touches_upd_op touches_refl
        split: prod.splits if_splits option.splits
        dest: touches_elide_out_parameter in_set_erase_item)

lemma touches_elide_parameters:
  "elide_parameters binstrs i instr as st = Inr st' \<Longrightarrow>
     touches {instr} (st_heap st) (st_heap st') \<and> set (st_funcops st') \<subseteq> set (st_funcops st)"
proof (induction as arbitrary: st)
  case Nil
  then show ?case by (simp add: touches_refl)
next
  case (Cons a as)
  then obtain st1 where 1: "elide_parameter binstrs i instr a st = Inr st1"
    and 2: "elide_parameters binstrs i instr as st1 = Inr st'"
    by (auto split: sum.splits)
  from touches_elide_parameter[OF 1] Cons.IH[OF 2] show ?case
    using touches_trans[of "{instr}" "st_heap st" "st_heap st1" "{instr}" "st_heap st'"] by auto
qed

lemma touches_process_instruction:
  assumes "process_instruction fuel func binstrs i st = Inr st'"
  shows "touches {binstrs ! i} (st_heap st) (st_heap st')
     \<and> set (st_funcops st') \<subseteq> insert (binstrs ! i) (set (st_funcops st))"
proof -
  let ?I = "binstrs ! i"
  define s0 where "s0 = (if ?I \<notin> st_ignore st then st\<lparr>st_funcops := st_funcops st @ [?I]\<rparr> else st)"
  have h0: "st_heap s0 = st_heap st" "set (st_funcops s0) \<subseteq> insert ?I (set (st_funcops st))"
    by (auto simp: s0_def)
  show ?thesis
  proof (cases "op (st_heap s0 ?I) = None")
    case True
    then have "st' = s0" using assms by (simp add: process_instruction_def Let_def s0_def)
    then show ?thesis using h0 by (simp add: touches_refl)
  next
    case False
    then obtain s1 s2 where 1: "fold_arguments fuel func ?I s0 = Inr s1"
      and 2: "merge_single_store fuel func ?I s1 = Inr s2"
      and 3: "st' = merge_store_temp ?I s2 \<or>
              elide_parameters binstrs i ?I
                [0 ..< length (arguments_of (st_heap (merge_store_temp ?I s2) ?I))]
                (merge_store_temp ?I s2) = Inr st'"
      using assms
      by (auto simp: process_instruction_def Let_def s0_def[symmetric] split: sum.splits if_splits)
    let ?s3 = "merge_store_temp ?I s2"
    have t3: "touches {?I} (st_heap st) (st_heap ?s3)"
      using touches_fold_arguments[OF 1] touches_merge_single_store[OF 2]
        touches_merge_store_temp[of ?I s2] h0(1)
        touches_trans[of "{?I}" "st_heap st" "st_heap s1" "{?I}" "st_heap s2"]
        touches_trans[of "{?I}" "st_heap st" "st_heap s2" "{?I}" "st_heap ?s3"]
      by simp
    have f3: "set (st_funcops ?s3) \<subseteq> insert ?I (set (st_funcops st))"
      using touches_fold_arguments[OF 1] touches_merge_single_store[OF 2]
        touches_merge_store_temp[of ?I s2] h0(2)
      by blast
    from 3 show ?thesis
    proof
      assume "st' = ?s3"
      then show ?thesis using t3 f3 by simp
    next
      assume "elide_parameters binstrs i ?I
                [0 ..< length (arguments_of (st_heap ?s3 ?I))] ?s3 = Inr st'"
      from touches_elide_parameters[OF this] t3 f3 show ?thesis
        using touches_trans[of "{?I}" "st_heap st" "st_heap ?s3" "{?I}" "st_heap st'"]
        by auto
    qed
  qed
qed

lemma touches_process_instructions:
  "process_instructions fuel func binstrs is st = Inr st' \<Longrightarrow>
     touches ((\<lambda>i. binstrs ! i) ` set is) (st_heap st) (st_heap st')
     \<and> set (st_funcops st') \<subseteq> set (st_funcops st) \<union> (\<lambda>i. binstrs ! i) ` set is"
proof (induction "is" arbitrary: st)
  case Nil
  then show ?case by (simp add: touches_refl)
next
  case (Cons i "is")
  then obtain s1 where 1: "process_instruction fuel func binstrs i st = Inr s1"
    and 2: "process_instructions fuel func binstrs is s1 = Inr st'"
    by (auto split: sum.splits)
  from touches_process_instruction[OF 1] Cons.IH[OF 2] show ?case
    using touches_trans[of "{binstrs ! i}" "st_heap st" "st_heap s1"
        "(\<lambda>i. binstrs ! i) ` set is" "st_heap st'"]
    by auto
qed














lemma complexity_of_Some: "op i = Some x \<Longrightarrow> complexity_of i = complexity x"
  by (simp add: complexity_of_def)



























lemma touches_opcode: "touches T h h' \<Longrightarrow> opcode (h' p) = opcode (h p)"
  by (simp add: touches_def same_bare_def)







lemma push_flow_heap: "st_heap (push_flow idtab b st) = st_heap st"
  by (simp add: push_flow_def Let_def split: option.splits)

lemma push_flow_funcops:
  "set (st_funcops (push_flow idtab b st))
     \<subseteq> set (st_funcops st) \<union> set (block_flow (st_heap st b))"
  by (auto simp: push_flow_def Let_def block_flow_def split: option.splits if_splits
        dest!: in_set_erase_item)


lemma process_block_unfold:
  "process_block fuel idtab func b st =
     (case process_instructions fuel func (block_instructions (st_heap st (blocks func ! b)))
             [0 ..< length (block_instructions (st_heap st (blocks func ! b)))]
             ((if b > 0 then st\<lparr>st_funcops := st_funcops st @ [blocks func ! b]\<rparr> else st)
                \<lparr>st_ignore := {}\<rparr>) of
        Inl e \<Rightarrow> Inl e
      | Inr st1 \<Rightarrow> Inr (push_flow idtab (blocks func ! b) st1))"
  by (simp add: process_block_def Let_def)

lemma touches_process_block:
  assumes "process_block fuel idtab func b st = Inr st'"
  shows "touches (set (block_instructions (st_heap st (blocks func ! b)))) (st_heap st) (st_heap st')
     \<and> set (st_funcops st') \<subseteq> set (st_funcops st) \<union> {blocks func ! b}
          \<union> set (block_instructions (st_heap st (blocks func ! b)))
          \<union> set (block_flow (st_heap st (blocks func ! b)))"
proof -
  let ?blk = "blocks func ! b"
  let ?B = "block_instructions (st_heap st ?blk)"
  define st0 where "st0 = (if b > 0 then st\<lparr>st_funcops := st_funcops st @ [?blk]\<rparr> else st)
                  \<lparr>st_ignore := {}\<rparr>"
  have h0: "st_heap st0 = st_heap st" "set (st_funcops st0) \<subseteq> set (st_funcops st) \<union> {?blk}"
    by (auto simp: st0_def)
  from assms obtain s1 where 1: "process_instructions fuel func ?B [0 ..< length ?B] st0 = Inr s1"
    and 2: "st' = push_flow idtab ?blk s1"
    unfolding process_block_unfold st0_def[symmetric] by (auto split: sum.splits)
  have im: "(\<lambda>i. ?B ! i) ` set [0 ..< length ?B] = set ?B"
    by (metis list.set_map map_nth)
  note t = touches_process_instructions[OF 1, unfolded im h0]
  have "block_flow (st_heap s1 ?blk) = block_flow (st_heap st ?blk)"
    using touches_block[OF conjunct1[OF t], of ?blk] by (simp add: block_flow_def)
  then show ?thesis
    using t h0(2) push_flow_funcops[of idtab ?blk s1] by (auto simp: 2 push_flow_heap)
qed


lemma touches_process_blocks:
  "process_blocks fuel idtab func bs st = Inr st' \<Longrightarrow>
     touches (set (concat (map (\<lambda>b. block_instructions (st_heap st (blocks func ! b))) bs)))
       (st_heap st) (st_heap st')"
proof (induction bs arbitrary: st)
  case Nil
  then show ?case by (simp add: touches_refl)
next
  case (Cons b bs)
  then obtain s1 where 1: "process_block fuel idtab func b st = Inr s1"
    and 2: "process_blocks fuel idtab func bs s1 = Inr st'"
    by (auto split: sum.splits)
  note t1 = conjunct1[OF touches_process_block[OF 1]]
  have "block_instructions (st_heap s1 q) = block_instructions (st_heap st q)" for q
    using touches_block[OF t1, of q] by simp
  then have "touches (set (concat (map (\<lambda>b. block_instructions (st_heap st (blocks func ! b))) bs)))
       (st_heap s1) (st_heap st')"
    using Cons.IH[OF 2] by simp
  from touches_trans[OF t1 this] show ?case by simp
qed


lemma map_nth_blocks: "map (\<lambda>b. f (xs ! b)) [0 ..< length xs] = map f xs"
  by (rule nth_equalityI) simp_all


lemma touches_inline_function:
  assumes "inline_function fuel idtab h func = Inr st1"
  shows "touches (set (linear h func)) h (st_heap st1)"
  using touches_process_blocks[OF assms[unfolded inline_function_def]]
  by (simp add: linear_def map_nth_blocks[of "\<lambda>b. block_instructions (h b)"])





text \<open>The composite insert is left out for a reason: when neither operand of an insert is
  folded and the insert is merged with the value emitted before it, the first run leaves
  \<open>inlineArgs = 2\<close> and the complexity of that value, and the second run, which starts
  from \<open>inlineArgs = 2\<close>, adds one to the complexity. In \<open>insert_func\<close> no operand list is
  rewritten, and the annotation of the insert at address 6 goes from \<open>(0, 2)\<close> to
  \<open>(1, 2)\<close>.\<close>

lemma insert_not_idempotent:
  "annotations [2, 3, 4, 5, 6] (inline_function 5 [] insert_heap insert_func)
     = Inr [(1, 7), (0, 1), (0, 3), (0, 0), (0, 2)]
   \<and> annotations [2, 3, 4, 5, 6] (inline_twice 5 [] insert_heap insert_func)
     = Inr [(1, 7), (0, 1), (0, 3), (0, 0), (1, 2)]
   \<and> kept_by_run insert_heap insert_func (inline_function 5 [] insert_heap insert_func)
   \<and> distinct (linear insert_heap insert_func)
   \<and> operands_precede insert_heap (linear insert_heap insert_func)
   \<and> labels_apart insert_heap insert_func"
  by code_simp


section \<open>The sweep after the inliner\<close>

lemma process_blocks_append:
  "process_blocks fuel idtab func (xs @ ys) st =
     (case process_blocks fuel idtab func xs st of
        Inl e \<Rightarrow> Inl e
      | Inr st' \<Rightarrow> process_blocks fuel idtab func ys st')"
  by (induction xs arbitrary: st) (simp_all split: sum.splits)

lemma push_flow_last:
  assumes "block (st_heap st b) = Some blk" "exitFlow blk = Some e"
  shows "st_funcops (push_flow idtab b st) \<noteq> [] \<and> last (st_funcops (push_flow idtab b st)) = e"
  using assms by (simp add: push_flow_def Let_def split: option.splits)

text \<open>When the last block is terminated, the emit list ends in its exit instruction.\<close>

lemma inline_function_last:
  assumes run: "inline_function fuel idtab h func = Inr st"
    and lt: "last_terminated h func"
  shows "st_funcops st \<noteq> [] \<and> opcode (st_heap st (last (st_funcops st))) \<noteq> OpLabel"
proof -
  let ?n = "length (blocks func)"
  let ?b = "last (blocks func)"
  from lt obtain blk e where ne: "blocks func \<noteq> []" and blk: "block (h ?b) = Some blk"
    and e: "exitFlow blk = Some e" and oe: "opcode (h e) \<noteq> OpLabel"
    by (auto simp: last_terminated_def split: option.splits)
  have n: "[0 ..< ?n] = [0 ..< ?n - 1] @ [?n - 1]"
    using ne by (cases "blocks func" rule: rev_cases) simp_all
  have b: "blocks func ! (?n - 1) = ?b" using ne by (simp add: last_conv_nth)
  from run obtain s' where 2: "process_block fuel idtab func (?n - 1) s' = Inr st"
    unfolding inline_function_def by (subst (asm) n) (auto simp: process_blocks_append split: sum.splits)
  then obtain s1 where st: "st = push_flow idtab ?b s1"
    unfolding process_block_unfold b by (auto split: sum.splits)
  note t = touches_inline_function[OF run]
  have "block (st_heap s1 ?b) = Some blk"
    using touches_block[OF t, of ?b] blk by (simp add: st push_flow_heap)
  from push_flow_last[OF this e, of idtab]
  have "st_funcops st \<noteq> []" "last (st_funcops st) = e" by (simp_all add: st)
  then show ?thesis using touches_opcode[OF t, of e] oe by simp
qed

text \<open>
  C10, as amended. Every index that the sweep reads is inside the emit list when the list
  is not empty and its last entry is not an \<^verbatim>\<open>OpLabel\<close>. That is the case of every
  function whose last block is terminated: when the inliner returns, its emit list ends
  in the exit instruction of that block, and the sweep returns. On an empty list the
  unsigned bound \<^verbatim>\<open>funcops.size()-1\<close> wraps and \<^verbatim>\<open>funcops[0]\<close> is read outside it.
\<close>

theorem sweep_in_bounds:
  "(funcops \<noteq> [] \<and> opcode (h (last funcops)) \<noteq> OpLabel \<longrightarrow> (\<exists>r. sweep h 0 funcops = Inr r))
   \<and> (last_terminated h func \<and> (\<exists>st. inline_function fuel idtab h func = Inr st) \<longrightarrow>
        (\<exists>r. emit_list fuel idtab h func = Inr r))
   \<and> sweep h 0 [] = Inl (IndexOutOfRange 0)"
proof -
  have a: "\<exists>r. sweep h' 0 fops = Inr r" if "fops \<noteq> []" "opcode (h' (last fops)) \<noteq> OpLabel"
    for h' fops
    using sweep_returns[of 0 fops h'] that by auto
  have "\<exists>r. emit_list fuel idtab h func = Inr r"
    if "last_terminated h func" "inline_function fuel idtab h func = Inr st" for st
    using inline_function_last[OF that(2,1)] a[of "st_funcops st" "st_heap st"] that(2)
    by (simp add: emit_list_def)
  then show ?thesis using a[of funcops h] sweep_empty by blast
qed

theorem sweep_in_bounds_witness:
  "[0, 1, 2, 3, 4, 5, 6 :: nat] \<noteq> []
   \<and> opcode (sweep_heap (last [0, 1, 2, 3, 4, 5, 6])) = OpReturn
   \<and> (\<exists>r. sweep sweep_heap 0 [0, 1, 2, 3, 4, 5, 6] = Inr r)
   \<and> last_terminated short_heap short_func
   \<and> emitted (inline_function 4 [] short_heap short_func) = Inr [4, 6]
   \<and> (\<exists>r. emit_list 4 [] short_heap short_func = Inr r)"
proof -
  have l: "opcode (sweep_heap (last [0, 1, 2, 3, 4, 5, 6])) = OpReturn"
    by (simp add: sweep_heap_def example_defs)
  have t: "last_terminated short_heap short_func" by code_simp
  have e: "emitted (inline_function 4 [] short_heap short_func) = Inr [4, 6]" by code_simp
  then obtain st where r: "inline_function 4 [] short_heap short_func = Inr st"
    by (cases "inline_function 4 [] short_heap short_func") (auto simp: emitted_def)
  show ?thesis
    using sweep_in_bounds[of "[0, 1, 2, 3, 4, 5, 6]" sweep_heap]
      sweep_in_bounds[of _ short_heap short_func 4 "[]"] l t e r
    by simp
qed

text \<open>The claim as stated fails: the function \<open>open_func\<close> has a terminated block and
  emits two instructions, \<open>Branch 7; Label 7\<close>; the sweep removes both and then reads
  \<^verbatim>\<open>funcops[0]\<close> of the empty list. Its last block is not terminated.\<close>

theorem sweep_in_bounds_counterexample:
  "emitted (inline_function 1 [] open_heap open_func) = Inr [1, 2]
   \<and> sweep open_heap 0 [1, 2] = Inl (IndexOutOfRange 0)
   \<and> emit_list 1 [] open_heap open_func = Inl (IndexOutOfRange 0)"
proof -
  have i: "inline_function 1 [] open_heap open_func
      = Inr \<lparr>st_heap = open_heap, st_funcops = [1, 2], st_vars = [], st_ignore = {}\<rparr>"
    by (simp add: inline_function_def process_block_def push_flow_def
        block_instructions_def open_heap_def open_func_def example_defs)
  have s: "sweep open_heap 0 [1, 2] = Inl (IndexOutOfRange 0)"
    by (simp add: open_heap_def example_defs
        sweep.simps size_minus_1_def target0_def refd_def is_target_def erase_at_def)
  show ?thesis using i s by (simp add: emitted_def emit_list_def)
qed


end
